theory Spec2Isabelle
  imports Complex_Main "HOL-Library.Sublist"
begin

section \<open>Data model of the flow editor\<close>

text \<open>
  Values held in a node's \<^verbatim>\<open>data\<close> object (\<^verbatim>\<open>Record<string, unknown>\<close>). Nested objects
  such as \<^verbatim>\<open>data.config\<close> are association lists; a property read is \<open>map_of\<close>.
\<close>

datatype jsval =
    JUndefined
  | JNull
  | JBool bool
  | JNum int
  | JStr string
  | JObj "(string \<times> jsval) list"

text \<open>
  A reactflow \<^verbatim>\<open>Node\<close>: \<^verbatim>\<open>id\<close>, \<^verbatim>\<open>type\<close> and \<^verbatim>\<open>data\<close>. The position and the other
  user-interface fields are never read by the code modelled here.
\<close>

record node =
  node_id :: string
  node_type :: string
  data :: "string \<rightharpoonup> jsval"

text \<open>
  A handle reference as the type \<^verbatim>\<open>string | null | undefined\<close> of reactflow has it;
  \<^verbatim>\<open>===\<close> on two of them is equality of this datatype.
\<close>

datatype handle = HUndefined | HNull | HId string

record edge =
  edge_id :: string
  source :: string
  target :: string
  sourceHandle :: handle
  targetHandle :: handle

text \<open>
  A reactflow \<^verbatim>\<open>Connection\<close>: \<^verbatim>\<open>source\<close> and \<^verbatim>\<open>target\<close> are \<^verbatim>\<open>string | null\<close>
  (\<open>None\<close> is \<^verbatim>\<open>null\<close>).
\<close>

record connection =
  conn_source :: "string option"
  conn_target :: "string option"
  conn_sourceHandle :: handle
  conn_targetHandle :: handle

text \<open>The two data fields of the zustand store \<^verbatim>\<open>FlowState\<close>.\<close>

record flow_state =
  nodes :: "node list"
  edges :: "edge list"

section \<open>Store actions\<close>

definition initial_state :: flow_state where
  "initial_state = \<lparr>nodes = [], edges = []\<rparr>"

definition setNodes :: "node list \<Rightarrow> flow_state \<Rightarrow> flow_state" where
  "setNodes ns st = st\<lparr>nodes := ns\<rparr>"

definition setEdges :: "edge list \<Rightarrow> flow_state \<Rightarrow> flow_state" where
  "setEdges es st = st\<lparr>edges := es\<rparr>"

definition addNode :: "node \<Rightarrow> flow_state \<Rightarrow> flow_state" where
  "addNode n st = st\<lparr>nodes := nodes st @ [n]\<rparr>"

text \<open>
  \<^verbatim>\<open>updateNodeData(id, data)\<close>: maps over the nodes; a node whose id matches gets
  \<^verbatim>\<open>{ ...node, data: { ...node.data, ...data } }\<close>, the spread being \<open>++\<close> on maps.
\<close>

definition updateNodeData :: "string \<Rightarrow> (string \<rightharpoonup> jsval) \<Rightarrow> flow_state \<Rightarrow> flow_state" where
  "updateNodeData i patch st =
     st\<lparr>nodes := map (\<lambda>n. if node_id n = i then n\<lparr>data := data n ++ patch\<rparr> else n) (nodes st)\<rparr>"


section \<open>Library functions of reactflow used by the store and the validator\<close>

text \<open>
  \<^verbatim>\<open>getOutgoers\<close>, \<^verbatim>\<open>addEdge\<close> and its helpers are imported from the reactflow package
  (version 11, the package named \<^verbatim>\<open>reactflow\<close>); they are not defined in this repository.
  They are written here as that package defines them.

  \<^verbatim>\<open>getOutgoers(node, nodes, edges)\<close>:
  \<^verbatim>\<open>outgoerIds = edges.filter(e => e.source === node.id).map(e => e.target)\<close>, then
  \<^verbatim>\<open>nodes.filter(n => outgoerIds.includes(n.id))\<close>. The result is a sublist of the node
  list, so an edge whose target id names no listed node contributes nothing. (The guard
  \<^verbatim>\<open>isNode(node)\<close> in front holds of every \<^verbatim>\<open>Node\<close>.)
\<close>

definition getOutgoers :: "node \<Rightarrow> node list \<Rightarrow> edge list \<Rightarrow> node list" where
  "getOutgoers n ns es =
     (let outgoerIds = map target (filter (\<lambda>e. source e = node_id n) es)
      in filter (\<lambda>m. node_id m \<in> set outgoerIds) ns)"

text \<open>JavaScript falsiness of a handle reference: \<^verbatim>\<open>undefined\<close>, \<^verbatim>\<open>null\<close> and \<^verbatim>\<open>""\<close>.\<close>

fun falsy_handle :: "handle \<Rightarrow> bool" where
  "falsy_handle HUndefined = True"
| "falsy_handle HNull = True"
| "falsy_handle (HId h) = (h = [])"

text \<open>\<^verbatim>\<open>handle || ''\<close> inside the template string of \<^verbatim>\<open>getEdgeId\<close>.\<close>

fun handle_text :: "handle \<Rightarrow> string" where
  "handle_text (HId h) = h"
| "handle_text _ = []"

definition getEdgeId :: "string \<Rightarrow> handle \<Rightarrow> string \<Rightarrow> handle \<Rightarrow> string" where
  "getEdgeId s sh t th = ''reactflow__edge-'' @ s @ handle_text sh @ ''-'' @ t @ handle_text th"

definition connectionExists :: "edge \<Rightarrow> edge list \<Rightarrow> bool" where
  "connectionExists e es =
     list_ex (\<lambda>el. source el = source e \<and> target el = target e
                 \<and> (sourceHandle el = sourceHandle e
                      \<or> (falsy_handle (sourceHandle el) \<and> falsy_handle (sourceHandle e)))
                 \<and> (targetHandle el = targetHandle e
                      \<or> (falsy_handle (targetHandle el) \<and> falsy_handle (targetHandle e)))) es"

text \<open>
  \<^verbatim>\<open>addEdge(connection, edges)\<close>: a connection whose source or target is falsy (\<^verbatim>\<open>null\<close> or
  the empty string) is dropped; otherwise the edge gets the generated id, and is appended
  unless an edge with the same endpoints and handles exists.
\<close>

definition addEdge :: "connection \<Rightarrow> edge list \<Rightarrow> edge list" where
  "addEdge c es =
     (case (conn_source c, conn_target c) of
        (Some s, Some t) \<Rightarrow>
          if s = [] \<or> t = [] then es
          else
            (let e = \<lparr>edge_id = getEdgeId s (conn_sourceHandle c) t (conn_targetHandle c),
                      source = s, target = t,
                      sourceHandle = conn_sourceHandle c,
                      targetHandle = conn_targetHandle c\<rparr>
             in if connectionExists e es then es else es @ [e])
      | _ \<Rightarrow> es)"

text \<open>\<^verbatim>\<open>onConnect\<close> of the store: \<^verbatim>\<open>set({ edges: addEdge(connection, get().edges) })\<close>.\<close>

definition onConnect :: "connection \<Rightarrow> flow_state \<Rightarrow> flow_state" where
  "onConnect c st = st\<lparr>edges := addEdge c (edges st)\<rparr>"

section \<open>Connection validation\<close>

text \<open>
  \<^verbatim>\<open>Array.prototype.some\<close> over a callback that may fail to return: the elements are
  tried in order, the first \<open>True\<close> ends the scan, and a callback that does not return
  (\<open>None\<close>) leaves the whole call without a result.
\<close>

fun some_opt :: "('a \<Rightarrow> bool option) \<Rightarrow> 'a list \<Rightarrow> bool option" where
  "some_opt f [] = Some False"
| "some_opt f (x # xs) =
     (case f x of
        None \<Rightarrow> None
      | Some True \<Rightarrow> Some True
      | Some False \<Rightarrow> some_opt f xs)"

text \<open>
  \<^verbatim>\<open>checkForCycles(target, source, nodes, edges)\<close>. The function calls itself on every
  outgoer and keeps no record of the nodes already seen; on a cyclic edge list the
  recursion need not end. The first argument bounds the depth of nested calls: \<open>None\<close> says that
  the call did not return within that depth.
\<close>

fun checkForCycles :: "nat \<Rightarrow> node \<Rightarrow> node \<Rightarrow> node list \<Rightarrow> edge list \<Rightarrow> bool option" where
  "checkForCycles 0 tgt src ns es = None"
| "checkForCycles (Suc depth) tgt src ns es =
     (let outgoers = getOutgoers tgt ns es
      in if list_ex (\<lambda>outgoer. node_id outgoer = node_id src) outgoers then Some True
         else some_opt (\<lambda>outgoer. checkForCycles depth outgoer src ns es) outgoers)"

text \<open>
  \<^verbatim>\<open>isValidConnection(connection, nodes, edges)\<close>, in the order of the code: the
  self-connection test, the occupied-input test, the two \<^verbatim>\<open>nodes.find\<close> lookups with their
  guard, then the cycle check.
\<close>

definition isValidConnection :: "nat \<Rightarrow> connection \<Rightarrow> node list \<Rightarrow> edge list \<Rightarrow> bool option" where
  "isValidConnection depth c ns es =
     (if conn_source c = conn_target c then Some False
      else if list_ex (\<lambda>e. Some (target e) = conn_target c
                            \<and> targetHandle e = conn_targetHandle c) es then Some False
      else case (find (\<lambda>n. Some (node_id n) = conn_source c) ns,
                 find (\<lambda>n. Some (node_id n) = conn_target c) ns) of
             (Some sourceNode, Some targetNode) \<Rightarrow>
               (case checkForCycles depth targetNode sourceNode ns es of
                  None \<Rightarrow> None
                | Some True \<Rightarrow> Some False
                | Some False \<Rightarrow> Some True)
           | _ \<Rightarrow> Some False)"

text \<open>
  The same recursion with a log: next to the result it returns the ids of the nodes on
  which \<^verbatim>\<open>checkForCycles\<close> was entered, in call order.
\<close>

fun some_visits :: "('a \<Rightarrow> (string list \<times> bool) option) \<Rightarrow> 'a list \<Rightarrow> (string list \<times> bool) option" where
  "some_visits f [] = Some ([], False)"
| "some_visits f (x # xs) =
     (case f x of
        None \<Rightarrow> None
      | Some (vs, True) \<Rightarrow> Some (vs, True)
      | Some (vs, False) \<Rightarrow>
          (case some_visits f xs of
             None \<Rightarrow> None
           | Some (ws, b) \<Rightarrow> Some (vs @ ws, b)))"

fun checkForCycles_visits ::
  "nat \<Rightarrow> node \<Rightarrow> node \<Rightarrow> node list \<Rightarrow> edge list \<Rightarrow> (string list \<times> bool) option" where
  "checkForCycles_visits 0 tgt src ns es = None"
| "checkForCycles_visits (Suc depth) tgt src ns es =
     (let outgoers = getOutgoers tgt ns es
      in if list_ex (\<lambda>outgoer. node_id outgoer = node_id src) outgoers
         then Some ([node_id tgt], True)
         else (case some_visits (\<lambda>outgoer. checkForCycles_visits depth outgoer src ns es) outgoers of
                 None \<Rightarrow> None
               | Some (vs, b) \<Rightarrow> Some (node_id tgt # vs, b)))"

subsection \<open>The graph notions the validator is measured against\<close>

text \<open>The directed graph of an edge list: one pair per edge, source first.\<close>

definition edge_rel :: "edge list \<Rightarrow> (string \<times> string) set" where
  "edge_rel es = set (map (\<lambda>e. (source e, target e)) es)"

text \<open>The edges a traversal by \<^verbatim>\<open>getOutgoers\<close> can follow: those whose target id is listed.\<close>

definition listed_rel :: "node list \<Rightarrow> edge list \<Rightarrow> (string \<times> string) set" where
  "listed_rel ns es =
     set (map (\<lambda>e. (source e, target e)) (filter (\<lambda>e. target e \<in> set (map node_id ns)) es))"

text \<open>Some existing edge already targets the connection's (target, targetHandle) pair.\<close>

definition input_taken :: "connection \<Rightarrow> edge list \<Rightarrow> bool" where
  "input_taken c es =
     (\<exists>e \<in> set es. Some (target e) = conn_target c \<and> targetHandle e = conn_targetHandle c)"

text \<open>The connection's source id or target id names no node of the list.\<close>

definition endpoint_absent :: "connection \<Rightarrow> node list \<Rightarrow> bool" where
  "endpoint_absent c ns =
     (conn_source c \<notin> Some ` node_id ` set ns \<or> conn_target c \<notin> Some ` node_id ` set ns)"

text \<open>The connection's source can be reached from its target over the relation \<open>r\<close>.\<close>

definition reaches_back :: "connection \<Rightarrow> (string \<times> string) set \<Rightarrow> bool" where
  "reaches_back c r =
     (\<exists>s t. conn_source c = Some s \<and> conn_target c = Some t \<and> (t, s) \<in> r\<^sup>+)"

text \<open>
  The structural invariants of a store state: no self-loop, at most one edge per
  (target, targetHandle) pair, no directed cycle, and every edge end names a listed node.
\<close>

definition graph_inv :: "flow_state \<Rightarrow> bool" where
  "graph_inv st =
     ((\<forall>e \<in> set (edges st). source e \<noteq> target e)
      \<and> distinct (map (\<lambda>e. (target e, targetHandle e)) (edges st))
      \<and> acyclic (edge_rel (edges st))
      \<and> (\<forall>e \<in> set (edges st). source e \<in> node_id ` set (nodes st)
                               \<and> target e \<in> node_id ` set (nodes st)))"

text \<open>
  The store states the canvas can build: \<^verbatim>\<open>page.tsx\<close> hands \<^verbatim>\<open>isValidConnection\<close> and
  \<^verbatim>\<open>onConnect\<close> to the \<^verbatim>\<open>ReactFlow\<close> component, which calls \<^verbatim>\<open>onConnect\<close> only for a
  connection the validator accepted against the current nodes and edges. Nodes are
  added by \<^verbatim>\<open>addNode\<close> and edited by \<^verbatim>\<open>updateNodeData\<close>.
\<close>

inductive canvas_built :: "flow_state \<Rightarrow> bool" where
  built_initial: "canvas_built initial_state"
| built_addNode: "canvas_built st \<Longrightarrow> canvas_built (addNode n st)"
| built_updateNodeData: "canvas_built st \<Longrightarrow> canvas_built (updateNodeData i patch st)"
| built_onConnect:
    "canvas_built st \<Longrightarrow> isValidConnection depth c (nodes st) (edges st) = Some True
       \<Longrightarrow> canvas_built (onConnect c st)"

section \<open>Text Input node: sanitising the typed value\<close>

text \<open>
  The two \<^verbatim>\<open>String.prototype.replace\<close> calls of \<^verbatim>\<open>handleChange\<close>. Both regular expressions
  carry the \<^verbatim>\<open>g\<close> flag: matches are sought from left to right, a match is deleted and the
  search goes on behind it; where no match starts, the character is kept.

  The letters of a pattern under the \<^verbatim>\<open>i\<close> flag match their two ASCII cases.
\<close>

definition ascii_lower :: "char \<Rightarrow> char" where
  "ascii_lower c =
     (let n = (of_char c :: nat) in if 65 \<le> n \<and> n \<le> 90 then char_of (n + 32) else c)"

text \<open>The input starts with the (lower-case) pattern, ASCII case ignored.\<close>

fun prefix_ci :: "string \<Rightarrow> string \<Rightarrow> bool" where
  "prefix_ci [] s = True"
| "prefix_ci (p # ps) [] = False"
| "prefix_ci (p # ps) (c # cs) = (ascii_lower c = p \<and> prefix_ci ps cs)"

text \<open>A word character of \<^verbatim>\<open>\b\<close>: a letter, a digit or the underscore.\<close>

definition is_word_char :: "char \<Rightarrow> bool" where
  "is_word_char c =
     (let n = (of_char c :: nat)
      in (97 \<le> n \<and> n \<le> 122) \<or> (65 \<le> n \<and> n \<le> 90) \<or> (48 \<le> n \<and> n \<le> 57) \<or> n = 95)"

text \<open>\<^verbatim>\<open><script\b\<close>: the seven characters, then the end of the input or a non-word character.\<close>

definition script_open :: "string \<Rightarrow> bool" where
  "script_open s =
     (prefix_ci ''<script'' s \<and> (case drop 7 s of [] \<Rightarrow> True | d # _ \<Rightarrow> \<not> is_word_char d))"

text \<open>
  \<^verbatim>\<open>[^<]*(?:(?!<\/script>)<[^<]*)*<\/script>\<close>: characters other than \<^verbatim>\<open><\<close> are consumed;
  at a \<^verbatim>\<open><\<close> the lookahead lets the group go on only when no closing tag starts there,
  so the match ends with the first closing tag. The result is the text behind the
  match, \<open>None\<close> when no closing tag follows.
\<close>

fun script_body :: "string \<Rightarrow> string option" where
  "script_body [] = None"
| "script_body (c # cs) =
     (if c \<noteq> CHR ''<'' then script_body cs
      else if prefix_ci ''</script>'' (c # cs) then Some (drop 9 (c # cs))
      else script_body cs)"

text \<open>\<^verbatim>\<open>.replace(/<script\b[^<]*(?:(?!<\/script>)<[^<]*)*<\/script>/gi, "")\<close>\<close>

function strip_scripts :: "string \<Rightarrow> string" where
  "strip_scripts [] = []"
| "strip_scripts (c # cs) =
     (if script_open (c # cs) then
        (case script_body (drop 7 (c # cs)) of
           Some rest \<Rightarrow> strip_scripts rest
         | None \<Rightarrow> c # strip_scripts cs)
      else c # strip_scripts cs)"
  by pat_completeness auto
termination
proof (relation "measure length")
  fix c :: char and cs rest :: string
  assume body: "script_body (drop 7 (c # cs)) = Some rest"
  have shorter: "script_body s = Some r \<Longrightarrow> length r \<le> length s" for s r
    by (induction s) (auto split: if_splits)
  from shorter [OF body] show "(rest, c # cs) \<in> measure length"
    by simp
qed simp_all

text \<open>
  \<^verbatim>\<open>.replace(/<[^>]*>/g, "")\<close>: a match starts at a \<^verbatim>\<open><\<close> that has a \<^verbatim>\<open>>\<close> somewhere behind
  it and ends with the first such \<^verbatim>\<open>>\<close>.
\<close>

function strip_tags :: "string \<Rightarrow> string" where
  "strip_tags [] = []"
| "strip_tags (c # cs) =
     (if c = CHR ''<'' \<and> CHR ''>'' \<in> set cs
      then strip_tags (tl (dropWhile (\<lambda>x. x \<noteq> CHR ''>'') cs))
      else c # strip_tags cs)"
  by pat_completeness auto
termination
proof (relation "measure length")
  fix c :: char and cs :: string
  have "length (dropWhile (\<lambda>x. x \<noteq> CHR ''>'') cs) \<le> length cs"
    by (rule length_dropWhile_le)
  then show "(tl (dropWhile (\<lambda>x. x \<noteq> CHR ''>'') cs), c # cs) \<in> measure length"
    by simp
qed simp_all

definition sanitize :: "string \<Rightarrow> string" where
  "sanitize s = strip_tags (strip_scripts s)"

text \<open>The string holds a match of \<^verbatim>\<open><[^>]*>\<close>: some \<^verbatim>\<open><\<close> with a \<^verbatim>\<open>>\<close> behind it.\<close>

fun has_tag :: "string \<Rightarrow> bool" where
  "has_tag [] = False"
| "has_tag (c # cs) = ((c = CHR ''<'' \<and> CHR ''>'' \<in> set cs) \<or> has_tag cs)"

subsection \<open>The two replacements in the words of their regular expressions\<close>

text \<open>
  What a match of the first regular expression is, said without the functions above.
  A pattern letter stands for its two ASCII cases, any other pattern character for
  itself.
\<close>

definition ci_eq :: "char \<Rightarrow> char \<Rightarrow> bool" where
  "ci_eq a c = (c = a \<or> (a, c) \<in> set (zip ''abcdefghijklmnopqrstuvwxyz''
                                            ''ABCDEFGHIJKLMNOPQRSTUVWXYZ''))"

text \<open>The word \<open>w\<close> is the pattern \<open>p\<close>, letter for letter, up to ASCII case.\<close>

definition spells :: "string \<Rightarrow> string \<Rightarrow> bool" where
  "spells p w = list_all2 ci_eq p w"

text \<open>The word characters of \<^verbatim>\<open>\b\<close>, listed.\<close>

definition word_chars :: "char set" where
  "word_chars = set ''abcdefghijklmnopqrstuvwxyzABCDEFGHIJKLMNOPQRSTUVWXYZ0123456789_''"

text \<open>
  No closing tag \<^verbatim>\<open></script>\<close> starts inside \<open>body\<close> when \<open>body\<close> is followed by the
  closing tag \<open>cl\<close>: \<open>cl\<close> is the first one.
\<close>

definition first_close :: "string \<Rightarrow> string \<Rightarrow> bool" where
  "first_close body cl =
     (\<forall>us vs. body = us @ vs \<and> vs \<noteq> [] \<longrightarrow> \<not> spells ''</script>'' (take 9 (vs @ cl)))"

text \<open>
  A script block: \<^verbatim>\<open><script\<close> in any case, not followed by a word character, then
  everything up to and including the first closing tag \<^verbatim>\<open></script>\<close> in any case.
\<close>

definition script_block :: "string \<Rightarrow> bool" where
  "script_block blk =
     (\<exists>start body cl. blk = start @ body @ cl
        \<and> spells ''<script'' start \<and> spells ''</script>'' cl
        \<and> (case body of [] \<Rightarrow> True | d # _ \<Rightarrow> d \<notin> word_chars)
        \<and> first_close body cl)"

text \<open>A script block starts at the head of the text.\<close>

definition starts_block :: "string \<Rightarrow> bool" where
  "starts_block s = (\<exists>blk rest. s = blk @ rest \<and> script_block blk)"

text \<open>
  The message \<^verbatim>\<open>Text reached maximum length of ${maxLength} characters\<close>, kept as its
  parameter.
\<close>

datatype validation_error = MaxLengthReached int

text \<open>
  \<^verbatim>\<open>handleChange\<close> of \<^verbatim>\<open>TextInputNode\<close>, on the component's \<^verbatim>\<open>validationError\<close> and the
  store. \<open>maxLength\<close> is \<^verbatim>\<open>data.config?.max_length\<close>, a number or absent (\<open>None\<close>); zero
  is falsy. The early \<^verbatim>\<open>return\<close> leaves the store as it is.
\<close>

definition handleChange ::
  "string \<Rightarrow> int option \<Rightarrow> string \<Rightarrow> validation_error option \<times> flow_state
     \<Rightarrow> validation_error option \<times> flow_state" where
  "handleChange i maxLength typed s =
     (let newValue = sanitize typed
      in case maxLength of
           Some m \<Rightarrow>
             if m \<noteq> 0 \<and> int (length newValue) \<ge> m then
               (if int (length newValue) > m then (Some (MaxLengthReached m), snd s)
                else (Some (MaxLengthReached m),
                      updateNodeData i [''value'' \<mapsto> JStr newValue] (snd s)))
             else (None, updateNodeData i [''value'' \<mapsto> JStr newValue] (snd s))
         | None \<Rightarrow> (None, updateNodeData i [''value'' \<mapsto> JStr newValue] (snd s)))"

section \<open>Text Join node: the separator\<close>

text \<open>
  \<^verbatim>\<open>data.config?.key\<close>: \<^verbatim>\<open>undefined\<close> when \<^verbatim>\<open>data.config\<close> is missing, \<^verbatim>\<open>null\<close> or
  \<^verbatim>\<open>undefined\<close>, or has no such property.
\<close>

definition config_prop :: "(string \<rightharpoonup> jsval) \<Rightarrow> string \<Rightarrow> jsval" where
  "config_prop d k =
     (case d ''config'' of
        Some (JObj kvs) \<Rightarrow> (case map_of kvs k of Some v \<Rightarrow> v | None \<Rightarrow> JUndefined)
      | _ \<Rightarrow> JUndefined)"

text \<open>
  \<^verbatim>\<open>typeof data.config?.separator === "string" ? data.config.separator : " "\<close>
\<close>

definition currentSeparator :: "(string \<rightharpoonup> jsval) \<Rightarrow> string" where
  "currentSeparator d = (case config_prop d ''separator'' of JStr s \<Rightarrow> s | _ \<Rightarrow> '' '')"

text \<open>
  The component's local state at mount, \<^verbatim>\<open>useState<string>(currentSeparator)\<close>: the value
  of the separator input field.
\<close>

definition localSeparator_initial :: "(string \<rightharpoonup> jsval) \<Rightarrow> string" where
  "localSeparator_initial d = currentSeparator d"

section \<open>Math Operation block\<close>

text \<open>
  Modelled from the spec: the \<^verbatim>\<open>run\<close> of the Math Operation block and its result type
  live in the backend (\<^verbatim>\<open>backend/app/blocks\<close>), which is not among the sources; only the
  node component, the \<^verbatim>\<open>MathOperation\<close> type and a skipped end-to-end test are. The
  spec: a BlockResult is a value (or its absence) and an optional error; the block has
  inputs \<^verbatim>\<open>a\<close> and \<^verbatim>\<open>b\<close>, its configuration selects one of add, subtract, multiply,
  divide, and a division by zero yields a BlockExecutionError instead of an infinite
  or NaN value.
\<close>

datatype math_operation = Add | Subtract | Multiply | Divide

datatype block_error = BlockExecutionError | UpstreamFailurePropagation

record block_result =
  result_value :: "real option"
  result_error :: "block_error option"

text \<open>
  Modelled from the spec: \<^verbatim>\<open>run\<close> of the Math Operation block, on the configured
  operation and the two inputs.
\<close>

definition math_operation_run :: "math_operation \<Rightarrow> real \<Rightarrow> real \<Rightarrow> block_result" where
  "math_operation_run operation a b =
     (case operation of
        Add \<Rightarrow> \<lparr>result_value = Some (a + b), result_error = None\<rparr>
      | Subtract \<Rightarrow> \<lparr>result_value = Some (a - b), result_error = None\<rparr>
      | Multiply \<Rightarrow> \<lparr>result_value = Some (a * b), result_error = None\<rparr>
      | Divide \<Rightarrow>
          if b = 0 then \<lparr>result_value = None, result_error = Some BlockExecutionError\<rparr>
          else \<lparr>result_value = Some (a / b), result_error = None\<rparr>)"

section \<open>Example graphs\<close>

definition mk_node :: "string \<Rightarrow> node" where
  "mk_node i = \<lparr>node_id = i, node_type = ''text_input'', data = Map.empty\<rparr>"

definition mk_edge :: "string \<Rightarrow> string \<Rightarrow> edge" where
  "mk_edge s t = \<lparr>edge_id = ''e-'' @ s @ ''-'' @ t, source = s, target = t,
                  sourceHandle = HNull, targetHandle = HNull\<rparr>"

definition mk_connection :: "string \<Rightarrow> string \<Rightarrow> connection" where
  "mk_connection s t = \<lparr>conn_source = Some s, conn_target = Some t,
                        conn_sourceHandle = HNull, conn_targetHandle = HNull\<rparr>"

text \<open>A diamond: \<open>t\<close> feeds \<open>a\<close> and \<open>b\<close>, both feed \<open>c\<close>; \<open>s\<close> is isolated.\<close>

definition diamond_nodes :: "node list" where
  "diamond_nodes = map mk_node [''t'', ''a'', ''b'', ''c'', ''s'']"

definition diamond_edges :: "edge list" where
  "diamond_edges = [mk_edge ''t'' ''a'', mk_edge ''t'' ''b'', mk_edge ''a'' ''c'', mk_edge ''b'' ''c'']"

text \<open>A path from \<open>t\<close> to \<open>s\<close> through \<open>x\<close>, which is not in the node list.\<close>

definition dangling_nodes :: "node list" where
  "dangling_nodes = map mk_node [''t'', ''s'']"

definition dangling_edges :: "edge list" where
  "dangling_edges = [mk_edge ''t'' ''x'', mk_edge ''x'' ''s'']"

text \<open>A chain \<open>a\<close>, \<open>b\<close>, \<open>c\<close>.\<close>

definition chain_nodes :: "node list" where
  "chain_nodes = map mk_node [''a'', ''b'', ''c'']"

definition chain_edges :: "edge list" where
  "chain_edges = [mk_edge ''a'' ''b'', mk_edge ''b'' ''c'']"

section \<open>The validator on a heap of arrays\<close>

text \<open>
  JavaScript arrays are objects passed by reference: \<^verbatim>\<open>page.tsx\<close> hands the store's own
  \<^verbatim>\<open>nodes\<close> and \<^verbatim>\<open>edges\<close> arrays to \<^verbatim>\<open>isValidConnection\<close>. To say what a call writes, the
  arrays live in a heap, a map from references to arrays with the next unused reference;
  every array method the validator calls is given its effect on that heap.
\<close>

datatype jsarray = NodeArray "node list" | EdgeArray "edge list" | IdArray "string list"

record heap =
  cells :: "nat \<rightharpoonup> jsarray"
  next_ref :: nat

definition node_array :: "heap \<Rightarrow> nat \<Rightarrow> node list" where
  "node_array h r = (case cells h r of Some (NodeArray ns) \<Rightarrow> ns | _ \<Rightarrow> [])"

definition edge_array :: "heap \<Rightarrow> nat \<Rightarrow> edge list" where
  "edge_array h r = (case cells h r of Some (EdgeArray es) \<Rightarrow> es | _ \<Rightarrow> [])"

definition id_array :: "heap \<Rightarrow> nat \<Rightarrow> string list" where
  "id_array h r = (case cells h r of Some (IdArray is) \<Rightarrow> is | _ \<Rightarrow> [])"

text \<open>A new array takes the next unused reference.\<close>

definition alloc :: "jsarray \<Rightarrow> heap \<Rightarrow> nat \<times> heap" where
  "alloc a h = (next_ref h, h\<lparr>cells := (cells h)(next_ref h \<mapsto> a), next_ref := Suc (next_ref h)\<rparr>)"

text \<open>
  \<^verbatim>\<open>Array.prototype.filter\<close> and \<^verbatim>\<open>map\<close> read the receiver and return a new array;
  \<^verbatim>\<open>some\<close>, \<^verbatim>\<open>find\<close> and \<^verbatim>\<open>includes\<close> only read.
\<close>

definition getOutgoers_h :: "node \<Rightarrow> nat \<Rightarrow> nat \<Rightarrow> heap \<Rightarrow> nat \<times> heap" where
  "getOutgoers_h n nodesRef edgesRef h =
     (let (selected, h1) = alloc (EdgeArray (filter (\<lambda>e. source e = node_id n) (edge_array h edgesRef))) h;
          (outgoerIds, h2) = alloc (IdArray (map target (edge_array h1 selected))) h1
      in alloc (NodeArray (filter (\<lambda>m. node_id m \<in> set (id_array h2 outgoerIds))
                                  (node_array h2 nodesRef))) h2)"

text \<open>
  \<^verbatim>\<open>some\<close> with a callback that runs on the heap, then the two functions of the
  validator, statement for statement, on references to the node and edge arrays.
\<close>

fun some_h :: "('a \<Rightarrow> heap \<Rightarrow> (bool \<times> heap) option) \<Rightarrow> 'a list \<Rightarrow> heap \<Rightarrow> (bool \<times> heap) option" where
  "some_h f [] h = Some (False, h)"
| "some_h f (x # xs) h =
     (case f x h of
        None \<Rightarrow> None
      | Some (True, h') \<Rightarrow> Some (True, h')
      | Some (False, h') \<Rightarrow> some_h f xs h')"

fun checkForCycles_h ::
  "nat \<Rightarrow> node \<Rightarrow> node \<Rightarrow> nat \<Rightarrow> nat \<Rightarrow> heap \<Rightarrow> (bool \<times> heap) option" where
  "checkForCycles_h 0 tgt src nodesRef edgesRef h = None"
| "checkForCycles_h (Suc depth) tgt src nodesRef edgesRef h =
     (let (outgoers, h1) = getOutgoers_h tgt nodesRef edgesRef h
      in if list_ex (\<lambda>outgoer. node_id outgoer = node_id src) (node_array h1 outgoers)
         then Some (True, h1)
         else some_h (\<lambda>outgoer. checkForCycles_h depth outgoer src nodesRef edgesRef)
                     (node_array h1 outgoers) h1)"

definition isValidConnection_h ::
  "nat \<Rightarrow> connection \<Rightarrow> nat \<Rightarrow> nat \<Rightarrow> heap \<Rightarrow> (bool \<times> heap) option" where
  "isValidConnection_h depth c nodesRef edgesRef h =
     (if conn_source c = conn_target c then Some (False, h)
      else if list_ex (\<lambda>e. Some (target e) = conn_target c
                            \<and> targetHandle e = conn_targetHandle c) (edge_array h edgesRef)
      then Some (False, h)
      else case (find (\<lambda>n. Some (node_id n) = conn_source c) (node_array h nodesRef),
                 find (\<lambda>n. Some (node_id n) = conn_target c) (node_array h nodesRef)) of
             (Some sourceNode, Some targetNode) \<Rightarrow>
               (case checkForCycles_h depth targetNode sourceNode nodesRef edgesRef h of
                  None \<Rightarrow> None
                | Some (True, h') \<Rightarrow> Some (False, h')
                | Some (False, h') \<Rightarrow> Some (True, h'))
           | _ \<Rightarrow> Some (False, h))"

text \<open>Every array that exists in \<open>h\<close> is the same in \<open>h'\<close>; \<open>h'\<close> may hold new ones.\<close>

definition extends :: "heap \<Rightarrow> heap \<Rightarrow> bool" where
  "extends h h' = (next_ref h \<le> next_ref h' \<and> (\<forall>r < next_ref h. cells h' r = cells h r))"

definition example_heap :: heap where
  "example_heap = \<lparr>cells = [0 \<mapsto> NodeArray chain_nodes, 1 \<mapsto> EdgeArray chain_edges], next_ref = 2\<rparr>"

section \<open>Frame of updateNodeData\<close>

text \<open>
  C9. \<^verbatim>\<open>updateNodeData(id, data)\<close> leaves the edges, the number and the order of the
  nodes as they are. At every position, a node whose id differs from \<open>id\<close> is unchanged,
  and a node whose id is \<open>id\<close> keeps its id and type while each key of its data reads
  the patch's value where the patch has the key and the old value otherwise (the shallow
  merge). When no node has the id, the node list is unchanged.
\<close>

theorem updateNodeData_frame:
  "edges (updateNodeData i patch st) = edges st
   \<and> length (nodes (updateNodeData i patch st)) = length (nodes st)
   \<and> (\<forall>j < length (nodes st).
        (node_id (nodes st ! j) \<noteq> i \<longrightarrow>
           nodes (updateNodeData i patch st) ! j = nodes st ! j)
      \<and> (node_id (nodes st ! j) = i \<longrightarrow>
           node_id (nodes (updateNodeData i patch st) ! j) = i
         \<and> node_type (nodes (updateNodeData i patch st) ! j) = node_type (nodes st ! j)
         \<and> (\<forall>k. data (nodes (updateNodeData i patch st) ! j) k =
                  (case patch k of Some v \<Rightarrow> Some v | None \<Rightarrow> data (nodes st ! j) k))))
   \<and> (i \<notin> node_id ` set (nodes st) \<longrightarrow> nodes (updateNodeData i patch st) = nodes st)"
proof -
  have unchanged: "map (\<lambda>n. if node_id n = i then n\<lparr>data := data n ++ patch\<rparr> else n) ns = ns"
    if "i \<notin> node_id ` set ns" for ns :: "node list"
    using that by (induction ns) auto
  show ?thesis
    by (auto simp: updateNodeData_def map_add_def unchanged split: option.splits)
qed

theorem updateNodeData_frame_witness:
  "(0::nat) < length chain_nodes \<and> node_id (chain_nodes ! 0) = ''a''
   \<and> data (nodes (updateNodeData ''a'' [''value'' \<mapsto> JStr ''x'']
                    \<lparr>nodes = chain_nodes, edges = chain_edges\<rparr>) ! 0) ''value'' = Some (JStr ''x'')
   \<and> (1::nat) < length chain_nodes \<and> node_id (chain_nodes ! 1) \<noteq> ''a''
   \<and> nodes (updateNodeData ''a'' [''value'' \<mapsto> JStr ''x'']
              \<lparr>nodes = chain_nodes, edges = chain_edges\<rparr>) ! 1 = chain_nodes ! 1
   \<and> edges (updateNodeData ''a'' [''value'' \<mapsto> JStr ''x'']
              \<lparr>nodes = chain_nodes, edges = chain_edges\<rparr>) = chain_edges
   \<and> ''z'' \<notin> node_id ` set chain_nodes
   \<and> nodes (updateNodeData ''z'' [''value'' \<mapsto> JStr ''x'']
              \<lparr>nodes = chain_nodes, edges = chain_edges\<rparr>) = chain_nodes"
proof -
  let ?st = "\<lparr>nodes = chain_nodes, edges = chain_edges\<rparr>"
  let ?p = "[''value'' \<mapsto> JStr ''x'']"
  have len0: "(0::nat) < length (nodes ?st)" and len1: "(1::nat) < length (nodes ?st)"
    by (simp_all add: chain_nodes_def)
  have id0: "node_id (nodes ?st ! 0) = ''a''" and id1: "node_id (nodes ?st ! 1) \<noteq> ''a''"
    by (simp_all add: chain_nodes_def mk_node_def)
  have absent: "''z'' \<notin> node_id ` set (nodes ?st)"
    by (simp add: chain_nodes_def mk_node_def)
  note a = updateNodeData_frame [of "''a''" ?p ?st]
  note z = updateNodeData_frame [of "''z''" ?p ?st]
  from a len0 id0 have "data (nodes (updateNodeData ''a'' ?p ?st) ! 0) ''value'' = Some (JStr ''x'')"
    by simp
  moreover from a len1 id1 have "nodes (updateNodeData ''a'' ?p ?st) ! 1 = chain_nodes ! 1"
    by simp
  moreover from a have "edges (updateNodeData ''a'' ?p ?st) = chain_edges"
    by simp
  moreover from z absent have "nodes (updateNodeData ''z'' ?p ?st) = chain_nodes"
    by simp
  ultimately show ?thesis
    using len0 len1 id0 id1 absent by simp
qed

section \<open>Reachability and the recursive cycle check\<close>

lemma listed_rel_subset: "listed_rel ns es \<subseteq> edge_rel es"
  by (auto simp: listed_rel_def edge_rel_def)

lemma listed_rel_all_listed:
  "target ` set es \<subseteq> node_id ` set ns \<Longrightarrow> listed_rel ns es = edge_rel es"
proof -
  assume "target ` set es \<subseteq> node_id ` set ns"
  then have "filter (\<lambda>e. target e \<in> set (map node_id ns)) es = es"
    by (auto simp: filter_id_conv)
  then show ?thesis by (simp add: listed_rel_def edge_rel_def)
qed

lemma acyclic_listed_rel: "acyclic (edge_rel es) \<Longrightarrow> acyclic (listed_rel ns es)"
  by (rule acyclic_subset [OF _ listed_rel_subset])

lemma outgoer_ids:
  "node_id ` set (getOutgoers n ns es) = listed_rel ns es `` {node_id n}"
  by (force simp: getOutgoers_def listed_rel_def Image_def)

lemma some_opt_all_Some:
  "\<forall>x \<in> set xs. f x = Some (P x) \<Longrightarrow> some_opt f xs = Some (\<exists>x \<in> set xs. P x)"
  by (induction xs) (auto split: bool.splits)

lemma some_opt_SomeD:
  "some_opt f xs = Some b \<Longrightarrow> (\<And>x c. x \<in> set xs \<Longrightarrow> f x = Some c \<Longrightarrow> c = P x)
     \<Longrightarrow> b = (\<exists>x \<in> set xs. P x)"
proof (induction xs)
  case Nil
  then show ?case by simp
next
  case (Cons x xs)
  then show ?case
    by (cases "f x") (auto split: bool.splits if_splits)
qed

lemma trancl_first_step:
  "(a, b) \<in> r\<^sup>+ \<longleftrightarrow> (\<exists>c. (a, c) \<in> r \<and> (c = b \<or> (c, b) \<in> r\<^sup>+))"
  by (metis converse_tranclE r_into_trancl' trancl_into_trancl2)

lemma reach_via_outgoers:
  "(node_id t, s) \<in> (listed_rel ns es)\<^sup>+ \<longleftrightarrow>
     (\<exists>out \<in> set (getOutgoers t ns es).
        node_id out = s \<or> (node_id out, s) \<in> (listed_rel ns es)\<^sup>+)"
proof -
  have "(node_id t, s) \<in> (listed_rel ns es)\<^sup>+ \<longleftrightarrow>
        (\<exists>c \<in> listed_rel ns es `` {node_id t}. c = s \<or> (c, s) \<in> (listed_rel ns es)\<^sup>+)"
    by (subst trancl_first_step) auto
  also have "\<dots> \<longleftrightarrow>
        (\<exists>c \<in> node_id ` set (getOutgoers t ns es). c = s \<or> (c, s) \<in> (listed_rel ns es)\<^sup>+)"
    by (simp only: outgoer_ids)
  finally show ?thesis by auto
qed

text \<open>Whatever depth the check returns at, its answer is reachability over the listed edges.\<close>

lemma checkForCycles_sound:
  "checkForCycles depth t s ns es = Some b \<Longrightarrow>
     b = ((node_id t, node_id s) \<in> (listed_rel ns es)\<^sup>+)"
proof (induction depth arbitrary: t b)
  case 0
  then show ?case by simp
next
  case (Suc depth)
  let ?outs = "getOutgoers t ns es"
  let ?R = "(listed_rel ns es)\<^sup>+"
  show ?case
  proof (cases "list_ex (\<lambda>out. node_id out = node_id s) ?outs")
    case True
    with Suc.prems have "b" by simp
    moreover from True have "(node_id t, node_id s) \<in> ?R"
      by (subst reach_via_outgoers) (auto simp: list_ex_iff)
    ultimately show ?thesis by simp
  next
    case False
    with Suc.prems have so: "some_opt (\<lambda>out. checkForCycles depth out s ns es) ?outs = Some b"
      by simp
    have "b = (\<exists>out \<in> set ?outs. (node_id out, node_id s) \<in> ?R)"
      by (rule some_opt_SomeD [OF so]) (rule Suc.IH)
    with False show ?thesis
      by (subst reach_via_outgoers) (auto simp: list_ex_iff)
  qed
qed

lemma reach_set_shrinks:
  assumes "acyclic r" "(a, c) \<in> r" "finite (r\<^sup>+ `` {a})"
  shows "card (r\<^sup>+ `` {c}) < card (r\<^sup>+ `` {a})"
proof (rule psubset_card_mono [OF assms(3)])
  have "r\<^sup>+ `` {c} \<subseteq> r\<^sup>+ `` {a}"
    using assms(2) by (auto intro: trancl_into_trancl2)
  moreover have "c \<in> r\<^sup>+ `` {a}" using assms(2) by auto
  moreover have "c \<notin> r\<^sup>+ `` {c}" using assms(1) by (auto simp: acyclic_def)
  ultimately show "r\<^sup>+ `` {c} \<subset> r\<^sup>+ `` {a}" by auto
qed

lemma reach_in_targets: "(listed_rel ns es)\<^sup>+ `` {a} \<subseteq> target ` set es"
proof -
  have "(listed_rel ns es)\<^sup>+ `` {a} \<subseteq> Range (listed_rel ns es)"
    by (auto simp: Range_iff elim: tranclE)
  also have "\<dots> \<subseteq> target ` set es"
    by (auto simp: listed_rel_def)
  finally show ?thesis .
qed

lemma finite_reach: "finite ((listed_rel ns es)\<^sup>+ `` {a})"
  by (rule finite_subset [OF reach_in_targets]) simp

lemma card_reach_le: "card ((listed_rel ns es)\<^sup>+ `` {a}) \<le> length es"
proof -
  have "card ((listed_rel ns es)\<^sup>+ `` {a}) \<le> card (target ` set es)"
    by (rule card_mono [OF _ reach_in_targets]) simp
  also have "\<dots> \<le> card (set es)" by (rule card_image_le) simp
  also have "\<dots> \<le> length es" by (rule card_length)
  finally show ?thesis .
qed

text \<open>
  Without a cycle the nodes reachable from an outgoer are strictly fewer than those
  reachable from the node itself, which bounds the depth of the recursion.
\<close>

lemma checkForCycles_returns:
  assumes "acyclic (listed_rel ns es)"
  shows "card ((listed_rel ns es)\<^sup>+ `` {node_id t}) < depth \<Longrightarrow>
           checkForCycles depth t s ns es
             = Some ((node_id t, node_id s) \<in> (listed_rel ns es)\<^sup>+)"
proof (induction depth arbitrary: t)
  case 0
  then show ?case by simp
next
  case (Suc depth)
  let ?outs = "getOutgoers t ns es"
  let ?R = "(listed_rel ns es)\<^sup>+"
  have rec: "checkForCycles depth out s ns es = Some ((node_id out, node_id s) \<in> ?R)"
    if "out \<in> set ?outs" for out
  proof -
    from that have "(node_id t, node_id out) \<in> listed_rel ns es"
      using outgoer_ids [of t ns es] by auto
    then have "card (?R `` {node_id out}) < card (?R `` {node_id t})"
      by (rule reach_set_shrinks [OF assms _ finite_reach])
    with Suc.prems have "card (?R `` {node_id out}) < depth" by simp
    then show ?thesis by (rule Suc.IH)
  qed
  show ?case
  proof (cases "list_ex (\<lambda>out. node_id out = node_id s) ?outs")
    case True
    then have "(node_id t, node_id s) \<in> ?R"
      by (subst reach_via_outgoers) (auto simp: list_ex_iff)
    with True show ?thesis by simp
  next
    case False
    have "some_opt (\<lambda>out. checkForCycles depth out s ns es) ?outs
            = Some (\<exists>out \<in> set ?outs. (node_id out, node_id s) \<in> ?R)"
      by (rule some_opt_all_Some) (simp add: rec)
    with False show ?thesis
      by (subst reach_via_outgoers) (auto simp: list_ex_iff)
  qed
qed

lemma checkForCycles_acyclic:
  assumes "acyclic (edge_rel es)" "length es < depth"
  shows "checkForCycles depth t s ns es = Some ((node_id t, node_id s) \<in> (listed_rel ns es)\<^sup>+)"
proof (rule checkForCycles_returns [OF acyclic_listed_rel [OF assms(1)]])
  from card_reach_le [of ns es "node_id t"] assms(2)
  show "card ((listed_rel ns es)\<^sup>+ `` {node_id t}) < depth" by simp
qed

section \<open>What checkForCycles answers\<close>

text \<open>
  C4. On an acyclic edge list \<^verbatim>\<open>checkForCycles(target, source, nodes, edges)\<close> returns
  within a recursion depth of one more than the number of edges, and its answer, at
  whatever depth it returns, is true exactly when the source is reachable from the
  target by one or more edges whose targets are nodes of the node list. When every
  edge target is listed these are all the edges, and for distinct source and target
  reachability over all edges says that adding the edge from source to target closes a
  directed cycle.
\<close>

theorem checkForCycles_reachability:
  assumes "acyclic (edge_rel es)"
  shows "(\<forall>depth > length es.
            checkForCycles depth t s ns es
              = Some ((node_id t, node_id s) \<in> (listed_rel ns es)\<^sup>+))
       \<and> (\<forall>depth b. checkForCycles depth t s ns es = Some b \<longrightarrow>
            b = ((node_id t, node_id s) \<in> (listed_rel ns es)\<^sup>+))
       \<and> (target ` set es \<subseteq> node_id ` set ns \<longrightarrow> listed_rel ns es = edge_rel es)
       \<and> (node_id t \<noteq> node_id s \<longrightarrow>
            ((node_id t, node_id s) \<in> (edge_rel es)\<^sup>+
              \<longleftrightarrow> \<not> acyclic (insert (node_id s, node_id t) (edge_rel es))))"
proof (intro conjI allI impI)
  fix depth assume "length es < depth"
  with assms show "checkForCycles depth t s ns es
                     = Some ((node_id t, node_id s) \<in> (listed_rel ns es)\<^sup>+)"
    by (rule checkForCycles_acyclic)
next
  fix depth b assume "checkForCycles depth t s ns es = Some b"
  then show "b = ((node_id t, node_id s) \<in> (listed_rel ns es)\<^sup>+)"
    by (rule checkForCycles_sound)
next
  assume "target ` set es \<subseteq> node_id ` set ns"
  then show "listed_rel ns es = edge_rel es" by (rule listed_rel_all_listed)
next
  assume "node_id t \<noteq> node_id s"
  then show "(node_id t, node_id s) \<in> (edge_rel es)\<^sup>+
               \<longleftrightarrow> \<not> acyclic (insert (node_id s, node_id t) (edge_rel es))"
    using assms by (auto simp: rtrancl_eq_or_trancl)
qed

theorem checkForCycles_reachability_witness:
  "acyclic (edge_rel chain_edges) \<and> length chain_edges < 3
   \<and> set (map target chain_edges) \<subseteq> set (map node_id chain_nodes)
   \<and> checkForCycles 3 (mk_node ''a'') (mk_node ''c'') chain_nodes chain_edges = Some True
   \<and> (''a'', ''c'') \<in> (edge_rel chain_edges)\<^sup>+
   \<and> \<not> acyclic (insert (''c'', ''a'') (edge_rel chain_edges))"
proof -
  have ac: "acyclic (edge_rel chain_edges)" by code_simp
  have len: "length chain_edges < 3" by (simp add: chain_edges_def)
  have listed: "target ` set chain_edges \<subseteq> node_id ` set chain_nodes"
    by (simp add: chain_edges_def chain_nodes_def mk_edge_def mk_node_def)
  have reach: "(''a'', ''c'') \<in> (edge_rel chain_edges)\<^sup>+" by code_simp
  have ids: "node_id (mk_node ''a'') = ''a''" "node_id (mk_node ''c'') = ''c''"
    by (simp_all add: mk_node_def)
  note inst = checkForCycles_reachability [OF ac, of "mk_node ''a''" "mk_node ''c''" chain_nodes]
  from inst listed have same: "listed_rel chain_nodes chain_edges = edge_rel chain_edges"
    by blast
  from inst len have "checkForCycles 3 (mk_node ''a'') (mk_node ''c'') chain_nodes chain_edges
                       = Some ((''a'', ''c'') \<in> (listed_rel chain_nodes chain_edges)\<^sup>+)"
    by (simp add: ids)
  with same reach
  have run: "checkForCycles 3 (mk_node ''a'') (mk_node ''c'') chain_nodes chain_edges = Some True"
    by simp
  from inst reach have "\<not> acyclic (insert (''c'', ''a'') (edge_rel chain_edges))"
    by (simp add: ids)
  with ac len listed run reach show ?thesis by simp
qed

theorem checkForCycles_dangling_counterexample:
  "acyclic (edge_rel dangling_edges)
   \<and> ''t'' \<in> set (map node_id dangling_nodes) \<and> ''s'' \<in> set (map node_id dangling_nodes)
   \<and> (''t'', ''s'') \<in> (edge_rel dangling_edges)\<^sup>+
   \<and> checkForCycles 3 (mk_node ''t'') (mk_node ''s'') dangling_nodes dangling_edges = Some False"
  by code_simp

section \<open>Connections to or from a missing node\<close>

lemma find_id_None:
  "find (\<lambda>n. Some (node_id n) = x) ns = None \<longleftrightarrow> x \<notin> Some ` node_id ` set ns"
  by (auto simp: find_None_iff)

lemma find_id_SomeD:
  "find (\<lambda>n. Some (node_id n) = x) ns = Some n \<Longrightarrow> n \<in> set ns \<and> x = Some (node_id n)"
  by (auto simp: find_Some_iff)

lemma absent_endpoint_rejected:
  assumes "endpoint_absent c ns"
  shows "isValidConnection depth c ns es = Some False"
proof -
  from assms have "find (\<lambda>n. Some (node_id n) = conn_source c) ns = None
           \<or> find (\<lambda>n. Some (node_id n) = conn_target c) ns = None"
    by (simp add: endpoint_absent_def find_id_None)
  then show ?thesis
    by (auto simp: isValidConnection_def split: option.splits)
qed

text \<open>
  C5. A connection whose source id or target id names no node of the node list is
  rejected: \<^verbatim>\<open>isValidConnection\<close> returns false, at every recursion depth, since the
  cycle check is not reached.
\<close>

theorem isValidConnection_absent_endpoint:
  "endpoint_absent c ns \<Longrightarrow> isValidConnection depth c ns es = Some False"
  by (rule absent_endpoint_rejected)

theorem isValidConnection_absent_endpoint_witness:
  "endpoint_absent (mk_connection ''a'' ''z'') chain_nodes
   \<and> conn_source (mk_connection ''a'' ''z'') \<noteq> conn_target (mk_connection ''a'' ''z'')
   \<and> \<not> input_taken (mk_connection ''a'' ''z'') chain_edges
   \<and> isValidConnection 3 (mk_connection ''a'' ''z'') chain_nodes chain_edges = Some False"
proof -
  have absent: "endpoint_absent (mk_connection ''a'' ''z'') chain_nodes"
    by (simp add: endpoint_absent_def mk_connection_def chain_nodes_def mk_node_def)
  have "conn_source (mk_connection ''a'' ''z'') \<noteq> conn_target (mk_connection ''a'' ''z'')"
    by (simp add: mk_connection_def)
  moreover have "\<not> input_taken (mk_connection ''a'' ''z'') chain_edges"
    by (simp add: input_taken_def mk_connection_def chain_edges_def mk_edge_def)
  ultimately show ?thesis
    using absent isValidConnection_absent_endpoint [OF absent, of 3 chain_edges] by simp
qed

section \<open>When isValidConnection rejects\<close>

lemma isValidConnection_sound:
  assumes "isValidConnection depth c ns es = Some b"
  shows "b = (\<not> (conn_source c = conn_target c \<or> input_taken c es \<or> endpoint_absent c ns
                  \<or> reaches_back c (listed_rel ns es)))"
proof (cases "conn_source c = conn_target c \<or> input_taken c es \<or> endpoint_absent c ns")
  case True
  have "isValidConnection depth c ns es = Some False"
  proof (cases "endpoint_absent c ns")
    case True
    then show ?thesis by (rule absent_endpoint_rejected)
  next
    case False
    with \<open>conn_source c = conn_target c \<or> input_taken c es \<or> endpoint_absent c ns\<close>
    show ?thesis
      by (auto simp: isValidConnection_def input_taken_def list_ex_iff)
  qed
  with assms True show ?thesis by auto
next
  case False
  then obtain sn tn where
    sn: "find (\<lambda>n. Some (node_id n) = conn_source c) ns = Some sn" and
    tn: "find (\<lambda>n. Some (node_id n) = conn_target c) ns = Some tn"
    by (auto simp: endpoint_absent_def find_id_None [symmetric])
  from find_id_SomeD [OF sn] find_id_SomeD [OF tn]
  have ends: "conn_source c = Some (node_id sn)" "conn_target c = Some (node_id tn)"
    by simp_all
  from False sn tn
  have "isValidConnection depth c ns es =
          (case checkForCycles depth tn sn ns es of
             None \<Rightarrow> None | Some True \<Rightarrow> Some False | Some False \<Rightarrow> Some True)"
    by (auto simp: isValidConnection_def input_taken_def list_ex_iff)
  with assms obtain r where
    r: "checkForCycles depth tn sn ns es = Some r" and b: "b = (\<not> r)"
    by (auto split: option.splits bool.splits)
  from checkForCycles_sound [OF r]
  have "r = reaches_back c (listed_rel ns es)"
    by (simp add: reaches_back_def ends)
  with b False show ?thesis by simp
qed

lemma isValidConnection_returns:
  assumes "acyclic (edge_rel es)" "length es < depth"
  shows "\<exists>b. isValidConnection depth c ns es = Some b"
  using checkForCycles_acyclic [OF assms]
  by (auto simp: isValidConnection_def split: option.splits bool.splits)

text \<open>
  C1. Whenever \<^verbatim>\<open>isValidConnection\<close> returns, it rejects exactly when one of four
  conditions holds: source equals target; an existing edge already targets the same
  (target, targetHandle) pair; the source id or the target id names no listed node; or
  the source is reachable from the target by existing edges whose targets are listed
  nodes. On an acyclic edge list it returns, within a recursion depth of one more
  than the number of edges.
\<close>

theorem isValidConnection_rejects_iff:
  "(isValidConnection depth c ns es = Some b \<longrightarrow>
      b = (\<not> (conn_source c = conn_target c \<or> input_taken c es \<or> endpoint_absent c ns
               \<or> reaches_back c (listed_rel ns es))))
   \<and> (acyclic (edge_rel es) \<and> length es < depth \<longrightarrow>
      isValidConnection depth c ns es
        = Some (\<not> (conn_source c = conn_target c \<or> input_taken c es \<or> endpoint_absent c ns
                    \<or> reaches_back c (listed_rel ns es))))"
proof (intro conjI impI)
  assume "isValidConnection depth c ns es = Some b"
  then show "b = (\<not> (conn_source c = conn_target c \<or> input_taken c es \<or> endpoint_absent c ns
                       \<or> reaches_back c (listed_rel ns es)))"
    by (rule isValidConnection_sound)
next
  assume "acyclic (edge_rel es) \<and> length es < depth"
  then obtain b where b: "isValidConnection depth c ns es = Some b"
    using isValidConnection_returns by blast
  from isValidConnection_sound [OF b] b
  show "isValidConnection depth c ns es
          = Some (\<not> (conn_source c = conn_target c \<or> input_taken c es \<or> endpoint_absent c ns
                      \<or> reaches_back c (listed_rel ns es)))"
    by simp
qed

theorem isValidConnection_three_conditions_counterexample:
  "isValidConnection 1 (mk_connection ''a'' ''z'') [mk_node ''a''] [] = Some False
   \<and> conn_source (mk_connection ''a'' ''z'') \<noteq> conn_target (mk_connection ''a'' ''z'')
   \<and> \<not> input_taken (mk_connection ''a'' ''z'') []
   \<and> \<not> reaches_back (mk_connection ''a'' ''z'') (edge_rel [])"
  by (simp add: isValidConnection_def mk_connection_def mk_node_def input_taken_def
                reaches_back_def edge_rel_def)

theorem isValidConnection_rejects_iff_witness:
  "acyclic (edge_rel chain_edges) \<and> length chain_edges < 3
   \<and> isValidConnection 3 (mk_connection ''c'' ''a'') chain_nodes chain_edges = Some False
   \<and> reaches_back (mk_connection ''c'' ''a'') (listed_rel chain_nodes chain_edges)
   \<and> isValidConnection 3 ((mk_connection ''a'' ''c'')\<lparr>conn_targetHandle := HId ''b''\<rparr>)
         chain_nodes chain_edges = Some True
   \<and> \<not> reaches_back ((mk_connection ''a'' ''c'')\<lparr>conn_targetHandle := HId ''b''\<rparr>)
           (listed_rel chain_nodes chain_edges)"
proof -
  let ?closing = "mk_connection ''c'' ''a''"
  let ?fresh = "(mk_connection ''a'' ''c'')\<lparr>conn_targetHandle := HId ''b''\<rparr>"
  have ac: "acyclic (edge_rel chain_edges)" by code_simp
  have len: "length chain_edges < 3" by (simp add: chain_edges_def)
  have plain_closing: "conn_source ?closing \<noteq> conn_target ?closing" "\<not> input_taken ?closing chain_edges"
    "\<not> endpoint_absent ?closing chain_nodes"
    by (simp_all add: mk_connection_def input_taken_def endpoint_absent_def
                      chain_edges_def chain_nodes_def mk_edge_def mk_node_def)
  have plain_fresh: "conn_source ?fresh \<noteq> conn_target ?fresh" "\<not> input_taken ?fresh chain_edges"
    "\<not> endpoint_absent ?fresh chain_nodes"
    by (simp_all add: mk_connection_def input_taken_def endpoint_absent_def
                      chain_edges_def chain_nodes_def mk_edge_def mk_node_def)
  have reach: "reaches_back ?closing (listed_rel chain_nodes chain_edges)"
  proof -
    have "(''a'', ''c'') \<in> (listed_rel chain_nodes chain_edges)\<^sup>+" by code_simp
    then show ?thesis by (simp add: reaches_back_def mk_connection_def)
  qed
  have no_reach: "\<not> reaches_back ?fresh (listed_rel chain_nodes chain_edges)"
  proof -
    have "(''c'', ''a'') \<notin> (listed_rel chain_nodes chain_edges)\<^sup>+" by code_simp
    then show ?thesis by (simp add: reaches_back_def mk_connection_def)
  qed
  have "isValidConnection 3 ?closing chain_nodes chain_edges
          = Some (\<not> (conn_source ?closing = conn_target ?closing \<or> input_taken ?closing chain_edges
                      \<or> endpoint_absent ?closing chain_nodes
                      \<or> reaches_back ?closing (listed_rel chain_nodes chain_edges)))"
    using ac len by (intro isValidConnection_rejects_iff [THEN conjunct2, THEN mp] conjI)
  with reach have rejected: "isValidConnection 3 ?closing chain_nodes chain_edges = Some False"
    by (simp only: simp_thms)
  have "isValidConnection 3 ?fresh chain_nodes chain_edges
          = Some (\<not> (conn_source ?fresh = conn_target ?fresh \<or> input_taken ?fresh chain_edges
                      \<or> endpoint_absent ?fresh chain_nodes
                      \<or> reaches_back ?fresh (listed_rel chain_nodes chain_edges)))"
    using ac len by (intro isValidConnection_rejects_iff [THEN conjunct2, THEN mp] conjI)
  with no_reach plain_fresh
  have accepted: "isValidConnection 3 ?fresh chain_nodes chain_edges = Some True"
    by (simp only: simp_thms)
  from ac len rejected reach accepted no_reach show ?thesis
    by (intro conjI)
qed

section \<open>The nodes a check visits\<close>

lemma some_visits_result:
  "(\<And>x. x \<in> set xs \<Longrightarrow> map_option snd (g x) = f x)
     \<Longrightarrow> map_option snd (some_visits g xs) = some_opt f xs"
proof (induction xs)
  case Nil
  then show ?case by simp
next
  case (Cons x xs)
  then have head: "map_option snd (g x) = f x"
    and rest: "map_option snd (some_visits g xs) = some_opt f xs"
    by simp_all
  show ?case
  proof (cases "g x")
    case None
    with head show ?thesis by simp
  next
    case (Some r)
    obtain vs b where r: "r = (vs, b)" by (cases r)
    with Some head have fx: "f x = Some b" by simp
    show ?thesis
    proof (cases b)
      case True
      with Some r fx show ?thesis by simp
    next
      case False
      with Some r fx rest show ?thesis
        by (cases "some_visits g xs") (auto split: option.splits)
    qed
  qed
qed

text \<open>The logging recursion returns the answer of \<^verbatim>\<open>checkForCycles\<close>, at every depth.\<close>

lemma checkForCycles_visits_result:
  "map_option snd (checkForCycles_visits depth t s ns es) = checkForCycles depth t s ns es"
proof (induction depth arbitrary: t)
  case 0
  show ?case by simp
next
  case (Suc depth)
  let ?outs = "getOutgoers t ns es"
  have "map_option snd (some_visits (\<lambda>out. checkForCycles_visits depth out s ns es) ?outs)
          = some_opt (\<lambda>out. checkForCycles depth out s ns es) ?outs"
    by (rule some_visits_result) (rule Suc.IH)
  then show ?case
    by (cases "some_visits (\<lambda>out. checkForCycles_visits depth out s ns es) ?outs")
       (auto simp: Let_def)
qed

lemma some_visits_within:
  "some_visits g xs = Some (vs, b)
     \<Longrightarrow> (\<And>x ws c. x \<in> set xs \<Longrightarrow> g x = Some (ws, c) \<Longrightarrow> set ws \<subseteq> A)
     \<Longrightarrow> set vs \<subseteq> A"
proof (induction xs arbitrary: vs b)
  case Nil
  then show ?case by simp
next
  case (Cons x xs)
  from Cons.prems(1) obtain ws c where gx: "g x = Some (ws, c)"
    by (cases "g x") auto
  from Cons.prems(2) [OF _ gx] have ws: "set ws \<subseteq> A" by simp
  show ?case
  proof (cases c)
    case True
    with Cons.prems(1) gx ws show ?thesis by simp
  next
    case False
    with Cons.prems(1) gx obtain us where
      rest: "some_visits g xs = Some (us, b)" and vs: "vs = ws @ us"
      by (cases "some_visits g xs") auto
    have "set us \<subseteq> A"
      by (rule Cons.IH [OF rest]) (rule Cons.prems(2), simp_all)
    with ws vs show ?thesis by simp
  qed
qed

lemma checkForCycles_visits_within:
  "checkForCycles_visits depth t s ns es = Some (vs, b)
     \<Longrightarrow> set vs \<subseteq> insert (node_id t) ((listed_rel ns es)\<^sup>+ `` {node_id t})"
proof (induction depth arbitrary: t vs b)
  case 0
  then show ?case by simp
next
  case (Suc depth)
  let ?outs = "getOutgoers t ns es"
  let ?R = "(listed_rel ns es)\<^sup>+"
  show ?case
  proof (cases "list_ex (\<lambda>out. node_id out = node_id s) ?outs")
    case True
    with Suc.prems show ?thesis by auto
  next
    case False
    with Suc.prems obtain ws where
      sv: "some_visits (\<lambda>out. checkForCycles_visits depth out s ns es) ?outs = Some (ws, b)"
      and vs: "vs = node_id t # ws"
      by (auto simp: Let_def split: option.splits)
    have "set ws \<subseteq> ?R `` {node_id t}"
    proof (rule some_visits_within [OF sv])
      fix out us c
      assume out: "out \<in> set ?outs"
        and run: "checkForCycles_visits depth out s ns es = Some (us, c)"
      from out have step: "(node_id t, node_id out) \<in> listed_rel ns es"
        using outgoer_ids [of t ns es] by auto
      from Suc.IH [OF run] have "set us \<subseteq> insert (node_id out) (?R `` {node_id out})" .
      with step show "set us \<subseteq> ?R `` {node_id t}"
        by (auto intro: trancl_into_trancl2)
    qed
    with vs show ?thesis by auto
  qed
qed

text \<open>
  C3. \<^verbatim>\<open>checkForCycles\<close> keeps no visited set: it is the recursive descent over outgoers,
  and a node that several paths lead to is entered once for each of them. What holds
  is this: on an acyclic edge list a single check returns within a recursion depth of
  one more than the number of edges, with the answer of \<^verbatim>\<open>checkForCycles\<close>, and every node
  it enters is the target or a node reachable from it.
\<close>

theorem checkForCycles_visits_acyclic:
  assumes "acyclic (edge_rel es)" and "length es < depth"
  shows "\<exists>vs b. checkForCycles_visits depth t s ns es = Some (vs, b)
               \<and> checkForCycles depth t s ns es = Some b
               \<and> set vs \<subseteq> insert (node_id t) ((listed_rel ns es)\<^sup>+ `` {node_id t})"
proof -
  from checkForCycles_acyclic [OF assms] obtain b where
    b: "checkForCycles depth t s ns es = Some b" by blast
  with checkForCycles_visits_result [of depth t s ns es] obtain vs where
    vs: "checkForCycles_visits depth t s ns es = Some (vs, b)"
    by (cases "checkForCycles_visits depth t s ns es") auto
  from checkForCycles_visits_within [OF vs] b vs show ?thesis by blast
qed

theorem checkForCycles_visits_acyclic_witness:
  "acyclic (edge_rel chain_edges) \<and> length chain_edges < 3
   \<and> checkForCycles_visits 3 (mk_node ''a'') (mk_node ''z'') chain_nodes chain_edges
       = Some ([''a'', ''b'', ''c''], False)
   \<and> checkForCycles 3 (mk_node ''a'') (mk_node ''z'') chain_nodes chain_edges = Some False
   \<and> set [''a'', ''b'', ''c'']
       \<subseteq> insert ''a'' ((listed_rel chain_nodes chain_edges)\<^sup>+ `` {''a''})"
proof -
  have ac: "acyclic (edge_rel chain_edges)" by code_simp
  have len: "length chain_edges < 3" by (simp add: chain_edges_def)
  have run: "checkForCycles_visits 3 (mk_node ''a'') (mk_node ''z'') chain_nodes chain_edges
               = Some ([''a'', ''b'', ''c''], False)"
    by code_simp
  have a: "node_id (mk_node ''a'') = ''a''" by (simp add: mk_node_def)
  from checkForCycles_visits_acyclic [OF ac len, of "mk_node ''a''" "mk_node ''z''" chain_nodes] run
  have "checkForCycles 3 (mk_node ''a'') (mk_node ''z'') chain_nodes chain_edges = Some False"
    and "set [''a'', ''b'', ''c'']
           \<subseteq> insert ''a'' ((listed_rel chain_nodes chain_edges)\<^sup>+ `` {''a''})"
    by (auto simp: a)
  with ac len run show ?thesis by (intro conjI)
qed

theorem checkForCycles_revisits_counterexample:
  "acyclic (edge_rel diamond_edges)
   \<and> checkForCycles_visits 5 (mk_node ''t'') (mk_node ''s'') diamond_nodes diamond_edges
       = Some ([''t'', ''a'', ''c'', ''b'', ''c''], False)
   \<and> count_list [''t'', ''a'', ''c'', ''b'', ''c''] ''c'' = 2"
  by code_simp

section \<open>Edges committed after validation\<close>

lemma addEdge_cases:
  "addEdge c es = es
   \<or> (\<exists>s t i. conn_source c = Some s \<and> conn_target c = Some t
         \<and> addEdge c es = es @ [\<lparr>edge_id = i, source = s, target = t,
                                   sourceHandle = conn_sourceHandle c,
                                   targetHandle = conn_targetHandle c\<rparr>])"
  by (auto simp: addEdge_def Let_def split: option.splits)

lemma isValidConnection_TrueD:
  assumes "isValidConnection depth c ns es = Some True"
  obtains s t where "conn_source c = Some s" "conn_target c = Some t" "s \<noteq> t"
    "\<not> input_taken c es" "s \<in> node_id ` set ns" "t \<in> node_id ` set ns"
    "(t, s) \<notin> (listed_rel ns es)\<^sup>+"
proof -
  from isValidConnection_sound [OF assms]
  have ok: "conn_source c \<noteq> conn_target c" "\<not> input_taken c es" "\<not> endpoint_absent c ns"
    "\<not> reaches_back c (listed_rel ns es)"
    by simp_all
  from ok(3) obtain s t where
    st: "conn_source c = Some s" "conn_target c = Some t"
      "s \<in> node_id ` set ns" "t \<in> node_id ` set ns"
    by (auto simp: endpoint_absent_def)
  from ok(1) st have "s \<noteq> t" by simp
  moreover from ok(4) st have "(t, s) \<notin> (listed_rel ns es)\<^sup>+"
    by (simp add: reaches_back_def)
  ultimately show thesis using st ok(2) by (rule_tac that)
qed

lemma graph_inv_initial: "graph_inv initial_state"
  by (simp add: graph_inv_def initial_state_def edge_rel_def acyclic_def)

lemma graph_inv_addNode: "graph_inv st \<Longrightarrow> graph_inv (addNode n st)"
  by (auto simp: graph_inv_def addNode_def)

lemma node_ids_updateNodeData:
  "node_id ` set (nodes (updateNodeData i patch st)) = node_id ` set (nodes st)"
proof -
  have "map node_id (map (\<lambda>n. if node_id n = i then n\<lparr>data := data n ++ patch\<rparr> else n) ns)
          = map node_id ns" for ns :: "node list"
    by (induction ns) auto
  then have "map node_id (nodes (updateNodeData i patch st)) = map node_id (nodes st)"
    by (simp add: updateNodeData_def)
  then have "set (map node_id (nodes (updateNodeData i patch st))) = set (map node_id (nodes st))"
    by (rule arg_cong)
  then show ?thesis by simp
qed

lemma graph_inv_updateNodeData: "graph_inv st \<Longrightarrow> graph_inv (updateNodeData i patch st)"
proof -
  assume inv: "graph_inv st"
  have "edges (updateNodeData i patch st) = edges st"
    by (simp add: updateNodeData_def)
  with inv show ?thesis
    by (simp add: graph_inv_def node_ids_updateNodeData)
qed

lemma graph_inv_onConnect:
  assumes inv: "graph_inv st"
    and ok: "isValidConnection depth c (nodes st) (edges st) = Some True"
  shows "graph_inv (onConnect c st)"
proof -
  let ?ns = "nodes st" and ?es = "edges st"
  from ok obtain s t where
    st: "conn_source c = Some s" "conn_target c = Some t" "s \<noteq> t"
      "\<not> input_taken c ?es" "s \<in> node_id ` set ?ns" "t \<in> node_id ` set ?ns"
      "(t, s) \<notin> (listed_rel ?ns ?es)\<^sup>+"
    by (rule isValidConnection_TrueD)
  from addEdge_cases [of c ?es] show ?thesis
  proof
    assume "addEdge c ?es = ?es"
    with inv show ?thesis by (simp add: graph_inv_def onConnect_def)
  next
    assume "\<exists>s t i. conn_source c = Some s \<and> conn_target c = Some t
         \<and> addEdge c ?es = ?es @ [\<lparr>edge_id = i, source = s, target = t,
                                   sourceHandle = conn_sourceHandle c,
                                   targetHandle = conn_targetHandle c\<rparr>]"
    with st obtain i where
      new: "addEdge c ?es = ?es @ [\<lparr>edge_id = i, source = s, target = t,
                                   sourceHandle = conn_sourceHandle c,
                                   targetHandle = conn_targetHandle c\<rparr>]"
      by auto
    from inv have listed: "target ` set ?es \<subseteq> node_id ` set ?ns"
      by (auto simp: graph_inv_def)
    from st(7) have "(t, s) \<notin> (edge_rel ?es)\<^sup>+"
      by (simp add: listed_rel_all_listed [OF listed])
    with st(3) have "(t, s) \<notin> (edge_rel ?es)\<^sup>*"
      by (auto simp: rtrancl_eq_or_trancl)
    with inv have acyc: "acyclic (insert (s, t) (edge_rel ?es))"
      by (simp add: graph_inv_def)
    have rel: "edge_rel (addEdge c ?es) = insert (s, t) (edge_rel ?es)"
      by (auto simp: new edge_rel_def)
    from st(4) have fresh: "(t, conn_targetHandle c) \<notin> (\<lambda>e. (target e, targetHandle e)) ` set ?es"
      by (auto simp: input_taken_def st(2))
    have "\<forall>e \<in> set (addEdge c ?es). source e \<noteq> target e"
      using inv st(3) by (auto simp: new graph_inv_def)
    moreover have "distinct (map (\<lambda>e. (target e, targetHandle e)) (addEdge c ?es))"
      using inv fresh by (simp add: new graph_inv_def)
    moreover have "acyclic (edge_rel (addEdge c ?es))"
      using acyc by (simp only: rel)
    moreover have "\<forall>e \<in> set (addEdge c ?es).
                     source e \<in> node_id ` set ?ns \<and> target e \<in> node_id ` set ?ns"
      using inv st(5,6) by (auto simp: new graph_inv_def)
    ultimately show ?thesis
      by (simp add: graph_inv_def onConnect_def)
  qed
qed

text \<open>
  C2. The store's \<^verbatim>\<open>onConnect\<close> checks nothing itself. The states built the way the
  canvas builds them, from the empty store by \<^verbatim>\<open>addNode\<close>, \<^verbatim>\<open>updateNodeData\<close> and
  \<^verbatim>\<open>onConnect\<close> calls for connections that \<^verbatim>\<open>isValidConnection\<close> accepted against the
  current nodes and edges, all satisfy: no self-loop, at most one edge per (target,
  targetHandle) pair, no directed cycle, and every edge end names a listed node.
\<close>

theorem canvas_built_graph_inv:
  "canvas_built st \<Longrightarrow> graph_inv st"
proof (induction rule: canvas_built.induct)
  case built_initial
  show ?case by (rule graph_inv_initial)
next
  case (built_addNode st n)
  then show ?case by (simp add: graph_inv_addNode)
next
  case (built_updateNodeData st i patch)
  then show ?case by (simp add: graph_inv_updateNodeData)
next
  case (built_onConnect st depth c)
  then show ?case by (simp add: graph_inv_onConnect)
qed

theorem canvas_built_graph_inv_witness:
  "canvas_built (onConnect (mk_connection ''a'' ''b'')
                   (addNode (mk_node ''b'') (addNode (mk_node ''a'') initial_state)))
   \<and> map edge_id (edges (onConnect (mk_connection ''a'' ''b'')
                   (addNode (mk_node ''b'') (addNode (mk_node ''a'') initial_state))))
       = [''reactflow__edge-a-b'']
   \<and> graph_inv (onConnect (mk_connection ''a'' ''b'')
                   (addNode (mk_node ''b'') (addNode (mk_node ''a'') initial_state)))"
proof -
  let ?st = "addNode (mk_node ''b'') (addNode (mk_node ''a'') initial_state)"
  have "canvas_built ?st"
    by (intro built_addNode built_initial)
  moreover have "isValidConnection 1 (mk_connection ''a'' ''b'') (nodes ?st) (edges ?st) = Some True"
    by code_simp
  ultimately have built: "canvas_built (onConnect (mk_connection ''a'' ''b'') ?st)"
    by (rule built_onConnect)
  have ids: "map edge_id (edges (onConnect (mk_connection ''a'' ''b'') ?st)) = [''reactflow__edge-a-b'']"
    by code_simp
  from built ids canvas_built_graph_inv [OF built] show ?thesis by (intro conjI)
qed

theorem onConnect_unchecked_counterexample:
  "map source (edges (onConnect (mk_connection ''a'' ''a'') (addNode (mk_node ''a'') initial_state)))
     = [''a'']
   \<and> map target (edges (onConnect (mk_connection ''a'' ''a'') (addNode (mk_node ''a'') initial_state)))
     = [''a'']
   \<and> \<not> graph_inv (onConnect (mk_connection ''a'' ''a'') (addNode (mk_node ''a'') initial_state))"
  by (simp add: graph_inv_def onConnect_def addEdge_def addNode_def initial_state_def
                mk_connection_def mk_node_def connectionExists_def)

section \<open>The sanitised value of a Text Input node\<close>

lemma set_strip_tags: "set (strip_tags s) \<subseteq> set s"
proof (induction s rule: strip_tags.induct)
  case 1
  show ?case by simp
next
  case (2 c cs)
  show ?case
  proof (cases "c = CHR ''<'' \<and> CHR ''>'' \<in> set cs")
    case True
    have "set (tl (dropWhile (\<lambda>x. x \<noteq> CHR ''>'') cs)) \<subseteq> set cs"
      by (metis (no_types, lifting) list.set_sel(2) set_dropWhileD subsetI tl_Nil)
    moreover from True have "set (strip_tags (tl (dropWhile (\<lambda>x. x \<noteq> CHR ''>'') cs)))
                  \<subseteq> set (tl (dropWhile (\<lambda>x. x \<noteq> CHR ''>'') cs))"
      by (rule 2(1))
    ultimately show ?thesis using True by auto
  next
    case False
    then have "set (strip_tags cs) \<subseteq> set cs" by (rule 2(2))
    with False show ?thesis by auto
  qed
qed

lemma no_tag_strip_tags: "\<not> has_tag (strip_tags s)"
proof (induction s rule: strip_tags.induct)
  case 1
  show ?case by simp
next
  case (2 c cs)
  show ?case
  proof (cases "c = CHR ''<'' \<and> CHR ''>'' \<in> set cs")
    case True
    then have "\<not> has_tag (strip_tags (tl (dropWhile (\<lambda>x. x \<noteq> CHR ''>'') cs)))"
      by (rule 2(1))
    with True show ?thesis by simp
  next
    case False
    then have rest: "\<not> has_tag (strip_tags cs)" by (rule 2(2))
    from False set_strip_tags [of cs]
    have "\<not> (c = CHR ''<'' \<and> CHR ''>'' \<in> set (strip_tags cs))" by auto
    with False rest show ?thesis by auto
  qed
qed

lemma subseq_strip_tags: "subseq (strip_tags s) s"
proof (induction s rule: strip_tags.induct)
  case 1
  show ?case by simp
next
  case (2 c cs)
  show ?case
  proof (cases "c = CHR ''<'' \<and> CHR ''>'' \<in> set cs")
    case True
    have "suffix (tl (dropWhile (\<lambda>x. x \<noteq> CHR ''>'') cs)) cs"
      by (rule suffix_order.trans [OF suffix_tl suffix_dropWhile])
    then have "subseq (tl (dropWhile (\<lambda>x. x \<noteq> CHR ''>'') cs)) cs"
      by (rule suffix_imp_subseq)
    then have "subseq (tl (dropWhile (\<lambda>x. x \<noteq> CHR ''>'') cs)) (c # cs)"
      by (rule list_emb_Cons)
    moreover from True
    have "subseq (strip_tags (tl (dropWhile (\<lambda>x. x \<noteq> CHR ''>'') cs)))
                 (tl (dropWhile (\<lambda>x. x \<noteq> CHR ''>'') cs))"
      by (rule 2(1))
    ultimately have "subseq (strip_tags (tl (dropWhile (\<lambda>x. x \<noteq> CHR ''>'') cs))) (c # cs)"
      by (rule subseq_order.trans [rotated])
    with True show ?thesis by simp
  next
    case False
    then have "subseq (strip_tags cs) cs" by (rule 2(2))
    with False show ?thesis by auto
  qed
qed

lemma script_body_suffix: "script_body s = Some r \<Longrightarrow> suffix r s"
proof (induction s)
  case Nil
  then show ?case by simp
next
  case (Cons c cs)
  then show ?case
    by (auto split: if_splits simp: suffix_Cons suffix_drop intro: suffix_drop)
qed

lemma subseq_strip_scripts: "subseq (strip_scripts s) s"
proof (induction s rule: strip_scripts.induct)
  case 1
  show ?case by simp
next
  case (2 c cs)
  show ?case
  proof (cases "script_open (c # cs)")
    case False
    then have "subseq (strip_scripts cs) cs" by (rule 2(3))
    with False show ?thesis by simp
  next
    case True
    show ?thesis
    proof (cases "script_body (drop 7 (c # cs))")
      case None
      from True None have "subseq (strip_scripts cs) cs" by (rule 2(1))
      moreover from True None have "strip_scripts (c # cs) = c # strip_scripts cs"
        by (simp del: drop_Suc_Cons)
      ultimately show ?thesis by simp
    next
      case (Some rest)
      from script_body_suffix [OF Some] have "suffix rest (drop 7 (c # cs))" .
      then have "suffix rest (c # cs)"
        by (rule suffix_order.trans) (rule suffix_drop)
      then have "subseq rest (c # cs)" by (rule suffix_imp_subseq)
      moreover from True Some have "subseq (strip_scripts rest) rest" by (rule 2(2))
      ultimately have "subseq (strip_scripts rest) (c # cs)"
        by (rule subseq_order.trans [rotated])
      moreover from True Some have "strip_scripts (c # cs) = strip_scripts rest"
        by (simp del: drop_Suc_Cons)
      ultimately show ?thesis by simp
    qed
  qed
qed

lemma strip_tags_plain: "CHR ''<'' \<notin> set s \<Longrightarrow> strip_tags s = s"
  by (induction s) auto

lemma ascii_lower_angle: "ascii_lower c = CHR ''<'' \<Longrightarrow> c = CHR ''<''"
proof (rule ccontr)
  assume low: "ascii_lower c = CHR ''<''" and other: "c \<noteq> CHR ''<''"
  let ?n = "of_char c :: nat"
  from low other have range: "65 \<le> ?n" "?n \<le> 90" and eq: "char_of (?n + 32) = CHR ''<''"
    by (auto simp: ascii_lower_def Let_def split: if_splits)
  from eq have "(of_char (char_of (?n + 32)) :: nat) = of_char CHR ''<''"
    by (rule arg_cong)
  then have "(?n + 32) mod 256 = 60" by simp
  with range show False by simp
qed

lemma strip_scripts_plain: "CHR ''<'' \<notin> set s \<Longrightarrow> strip_scripts s = s"
proof (induction s)
  case Nil
  show ?case by simp
next
  case (Cons c cs)
  have "\<not> script_open (c # cs)"
  proof
    assume "script_open (c # cs)"
    then have "ascii_lower c = CHR ''<''"
      by (simp add: script_open_def)
    then have "c = CHR ''<''" by (rule ascii_lower_angle)
    with Cons.prems show False by auto
  qed
  with Cons show ?case by simp
qed

text \<open>\<open>has_tag\<close> says that some substring has the shape of the regular expression.\<close>

lemma has_tag_iff:
  "has_tag s \<longleftrightarrow>
     (\<exists>us vs ws. s = us @ [CHR ''<''] @ vs @ [CHR ''>''] @ ws \<and> CHR ''>'' \<notin> set vs)"
proof (induction s)
  case Nil
  show ?case by simp
next
  case (Cons c cs)
  show ?case
  proof
    assume "has_tag (c # cs)"
    then consider "c = CHR ''<''" "CHR ''>'' \<in> set cs" | "has_tag cs" by auto
    then show "\<exists>us vs ws. c # cs = us @ [CHR ''<''] @ vs @ [CHR ''>''] @ ws \<and> CHR ''>'' \<notin> set vs"
    proof cases
      case 1
      from split_list_first [OF 1(2)] obtain vs ws where
        "cs = vs @ CHR ''>'' # ws" "CHR ''>'' \<notin> set vs" by blast
      with 1(1) have "c # cs = [] @ [CHR ''<''] @ vs @ [CHR ''>''] @ ws \<and> CHR ''>'' \<notin> set vs"
        by simp
      then show ?thesis by blast
    next
      case 2
      with Cons.IH obtain us vs ws where
        "cs = us @ [CHR ''<''] @ vs @ [CHR ''>''] @ ws" "CHR ''>'' \<notin> set vs" by blast
      then have "c # cs = (c # us) @ [CHR ''<''] @ vs @ [CHR ''>''] @ ws \<and> CHR ''>'' \<notin> set vs"
        by simp
      then show ?thesis by blast
    qed
  next
    assume "\<exists>us vs ws. c # cs = us @ [CHR ''<''] @ vs @ [CHR ''>''] @ ws \<and> CHR ''>'' \<notin> set vs"
    then obtain us vs ws where
      eq: "c # cs = us @ [CHR ''<''] @ vs @ [CHR ''>''] @ ws" and vs: "CHR ''>'' \<notin> set vs"
      by blast
    show "has_tag (c # cs)"
    proof (cases us)
      case Nil
      with eq have "c = CHR ''<''" "cs = vs @ [CHR ''>''] @ ws" by simp_all
      then show ?thesis by simp
    next
      case tail: (Cons u us')
      with eq have "cs = us' @ [CHR ''<''] @ vs @ [CHR ''>''] @ ws" by simp
      with vs Cons.IH have "has_tag cs" by blast
      then show ?thesis by simp
    qed
  qed
qed

text \<open>The listed characters are those the two tests on character codes accept.\<close>

lemma is_word_char_iff: "\<forall>c. is_word_char c = (c \<in> word_chars)"
  by code_simp

lemma ascii_lower_ci_eq: "\<forall>c. \<forall>a \<in> set ''<script/>''. (ascii_lower c = a) = ci_eq a c"
  by code_simp

lemma spells_length: "spells p w \<Longrightarrow> length w = length p"
  by (simp add: spells_def list_all2_lengthD)

lemma prefix_ci_take:
  "prefix_ci p t \<longleftrightarrow> list_all2 (\<lambda>a c. ascii_lower c = a) p (take (length p) t)"
proof (induction p arbitrary: t)
  case Nil
  show ?case by simp
next
  case (Cons a p)
  show ?case by (cases t) (simp_all add: Cons.IH)
qed

lemma prefix_ci_spells:
  assumes "set p \<subseteq> set ''<script/>''"
  shows "prefix_ci p t \<longleftrightarrow> spells p (take (length p) t)"
proof -
  have eq: "(ascii_lower c = a) = ci_eq a c" if "a \<in> set p" for a c
  proof -
    from assms that have "a \<in> set ''<script/>''" by (rule subsetD)
    then show ?thesis by (rule ascii_lower_ci_eq [THEN spec, THEN bspec])
  qed
  have "list_all2 (\<lambda>a c. ascii_lower c = a) p w \<longleftrightarrow> list_all2 ci_eq p w" for w
    by (auto simp: list_all2_conv_all_nth eq)
  then show ?thesis by (simp add: prefix_ci_take spells_def)
qed

lemma closing_spells: "prefix_ci ''</script>'' t \<longleftrightarrow> spells ''</script>'' (take 9 t)"
proof -
  have len: "length ''</script>'' = 9" by simp
  have "set ''</script>'' \<subseteq> set ''<script/>''" by simp
  from prefix_ci_spells [OF this] show ?thesis by (simp only: len)
qed

lemma opening_spells: "prefix_ci ''<script'' t \<longleftrightarrow> spells ''<script'' (take 7 t)"
proof -
  have len: "length ''<script'' = 7" by simp
  have "set ''<script'' \<subseteq> set ''<script/>''" by simp
  from prefix_ci_spells [OF this] show ?thesis by (simp only: len)
qed

lemma take_over: "length cl = n \<Longrightarrow> take n (body @ cl @ rest) = take n (body @ cl)"
  by simp

lemma spells_hd: "spells (a # p) w \<Longrightarrow> a = CHR ''<'' \<Longrightarrow> \<exists>w'. w = CHR ''<'' # w'"
  by (cases w) (auto simp: spells_def ci_eq_def)

lemma first_close_Nil: "first_close [] cl"
  by (simp add: first_close_def)

lemma first_close_Cons:
  "first_close (c # body) cl \<longleftrightarrow>
     \<not> spells ''</script>'' (take 9 (c # body @ cl)) \<and> first_close body cl"
proof
  assume fc: "first_close (c # body) cl"
  have "\<not> spells ''</script>'' (take 9 (c # body @ cl))"
    using fc [unfolded first_close_def, rule_format, of "[]" "c # body"] by simp
  moreover have "first_close body cl"
    unfolding first_close_def
  proof (intro allI impI)
    fix us vs assume "body = us @ vs \<and> vs \<noteq> []"
    then have "c # body = (c # us) @ vs \<and> vs \<noteq> []" by simp
    with fc show "\<not> spells ''</script>'' (take 9 (vs @ cl))"
      unfolding first_close_def by blast
  qed
  ultimately show "\<not> spells ''</script>'' (take 9 (c # body @ cl)) \<and> first_close body cl" ..
next
  assume r: "\<not> spells ''</script>'' (take 9 (c # body @ cl)) \<and> first_close body cl"
  show "first_close (c # body) cl"
    unfolding first_close_def
  proof (intro allI impI)
    fix us vs assume d: "c # body = us @ vs \<and> vs \<noteq> []"
    show "\<not> spells ''</script>'' (take 9 (vs @ cl))"
    proof (cases us)
      case Nil
      with d r show ?thesis by auto
    next
      case (Cons u us')
      with d have "body = us' @ vs \<and> vs \<noteq> []" by simp
      with r show ?thesis unfolding first_close_def by blast
    qed
  qed
qed

text \<open>\<open>script_body\<close> finds the first closing tag.\<close>

lemma script_body_iff:
  "script_body t = Some rest \<longleftrightarrow>
     (\<exists>body cl. t = body @ cl @ rest \<and> spells ''</script>'' cl \<and> first_close body cl)"
proof (induction t)
  case Nil
  show ?case by (auto dest: spells_length)
next
  case (Cons c cs)
  have step: "script_body (c # cs) =
                (if prefix_ci ''</script>'' (c # cs) then Some (drop 9 (c # cs)) else script_body cs)"
    by (auto dest: ascii_lower_angle)
  show ?case
  proof (cases "prefix_ci ''</script>'' (c # cs)")
    case True
    with closing_spells [of "c # cs"]
    have sp: "spells ''</script>'' (take 9 (c # cs))" by blast
    show ?thesis
    proof
      assume "script_body (c # cs) = Some rest"
      with step True have rest: "rest = drop 9 (c # cs)" by simp
      then have "c # cs = [] @ take 9 (c # cs) @ rest" by simp
      with sp first_close_Nil show "\<exists>body cl. c # cs = body @ cl @ rest
                \<and> spells ''</script>'' cl \<and> first_close body cl"
        by blast
    next
      assume "\<exists>body cl. c # cs = body @ cl @ rest \<and> spells ''</script>'' cl \<and> first_close body cl"
      then obtain body cl where
        d: "c # cs = body @ cl @ rest" and cl: "spells ''</script>'' cl" and fc: "first_close body cl"
        by blast
      from spells_length [OF cl] have len: "length cl = 9" by simp
      have "body = []"
      proof (rule ccontr)
        assume ne: "body \<noteq> []"
        from take_over [OF len] d sp have "spells ''</script>'' (take 9 (body @ cl))"
          by (simp only:)
        moreover from fc ne have "\<not> spells ''</script>'' (take 9 (body @ cl))"
          unfolding first_close_def by (metis append_Nil)
        ultimately show False by simp
      qed
      with d len have "rest = drop 9 (c # cs)" by simp
      with step True show "script_body (c # cs) = Some rest" by simp
    qed
  next
    case False
    with closing_spells [of "c # cs"]
    have nsp: "\<not> spells ''</script>'' (take 9 (c # cs))" by blast
    from \<open>\<not> prefix_ci ''</script>'' (c # cs)\<close>
    have same: "script_body (c # cs) = script_body cs"
      unfolding step by (simp only: if_False)
    show ?thesis
    proof
      assume "script_body (c # cs) = Some rest"
      with same Cons.IH obtain body cl where
        d: "cs = body @ cl @ rest" and cl: "spells ''</script>'' cl" and fc: "first_close body cl"
        by auto
      from spells_length [OF cl] have len: "length cl = 9" by simp
      from len d have "take 9 (c # body @ cl) = take 9 (c # cs)" by simp
      with nsp fc have "first_close (c # body) cl" by (simp add: first_close_Cons)
      moreover from d have "c # cs = (c # body) @ cl @ rest" by simp
      ultimately show "\<exists>body cl. c # cs = body @ cl @ rest
                \<and> spells ''</script>'' cl \<and> first_close body cl"
        using cl by blast
    next
      assume "\<exists>body cl. c # cs = body @ cl @ rest \<and> spells ''</script>'' cl \<and> first_close body cl"
      then obtain body cl where
        d: "c # cs = body @ cl @ rest" and cl: "spells ''</script>'' cl" and fc: "first_close body cl"
        by blast
      from spells_length [OF cl] have len: "length cl = 9" by simp
      have "body \<noteq> []"
      proof
        assume "body = []"
        with d len have "cl = take 9 (c # cs)" by simp
        with cl have "spells ''</script>'' (take 9 (c # cs))" by (simp only:)
        with nsp show False by (rule notE)
      qed
      then obtain body' where body: "body = c # body'" using d by (cases body) auto
      with d have d': "cs = body' @ cl @ rest" by simp
      from fc body have "first_close body' cl" by (simp add: first_close_Cons)
      with d' cl Cons.IH have "script_body cs = Some rest" by blast
      with same show "script_body (c # cs) = Some rest" by simp
    qed
  qed
qed

text \<open>A match of the first regular expression at the head of the text is a script block.\<close>

lemma script_match_iff:
  "script_open s \<and> script_body (drop 7 s) = Some rest \<longleftrightarrow>
     (\<exists>blk. script_block blk \<and> s = blk @ rest)"
proof
  assume m: "script_open s \<and> script_body (drop 7 s) = Some rest"
  then have op: "spells ''<script'' (take 7 s)"
    and bound: "case drop 7 s of [] \<Rightarrow> True | d # _ \<Rightarrow> \<not> is_word_char d"
    by (simp_all add: script_open_def opening_spells)
  from m obtain body cl where
    d: "drop 7 s = body @ cl @ rest" and cl: "spells ''</script>'' cl" and fc: "first_close body cl"
    by (auto simp: script_body_iff)
  from bound d have "case body of [] \<Rightarrow> True | d # _ \<Rightarrow> d \<notin> word_chars"
    by (cases body) (simp_all add: is_word_char_iff)
  with op cl fc have "script_block (take 7 s @ body @ cl)"
    unfolding script_block_def by blast
  moreover have "s = (take 7 s @ body @ cl) @ rest"
    using d by (metis append.assoc append_take_drop_id)
  ultimately show "\<exists>blk. script_block blk \<and> s = blk @ rest" by blast
next
  assume "\<exists>blk. script_block blk \<and> s = blk @ rest"
  then obtain start body cl where
    s: "s = start @ body @ cl @ rest" and op: "spells ''<script'' start"
    and cl: "spells ''</script>'' cl"
    and bound: "case body of [] \<Rightarrow> True | d # _ \<Rightarrow> d \<notin> word_chars"
    and fc: "first_close body cl"
    unfolding script_block_def by auto
  from spells_length [OF op] have len: "length start = 7" by simp
  with s have tk: "take 7 s = start" and dr: "drop 7 s = body @ cl @ rest" by simp_all
  from spells_hd [OF cl] obtain cl' where cl': "cl = CHR ''<'' # cl'" by auto
  have "\<not> is_word_char CHR ''<''" by code_simp
  with bound dr cl' have "case drop 7 s of [] \<Rightarrow> True | d # _ \<Rightarrow> \<not> is_word_char d"
    by (cases body) (simp_all add: is_word_char_iff)
  with op tk have "script_open s" by (simp add: script_open_def opening_spells)
  moreover from dr cl fc have "script_body (drop 7 s) = Some rest"
    by (auto simp: script_body_iff)
  ultimately show "script_open s \<and> script_body (drop 7 s) = Some rest" ..
qed

lemma no_match_iff:
  "\<not> starts_block s \<longleftrightarrow> (script_open s \<longrightarrow> script_body (drop 7 s) = None)"
proof -
  have "starts_block s \<longleftrightarrow> (\<exists>rest. script_open s \<and> script_body (drop 7 s) = Some rest)"
    unfolding starts_block_def script_match_iff by blast
  then show ?thesis by auto
qed

lemma strip_scripts_no_match:
  "\<not> starts_block (c # cs) \<Longrightarrow> strip_scripts (c # cs) = c # strip_scripts cs"
  by (auto simp: no_match_iff simp del: drop_Suc_Cons)

lemma strip_scripts_match:
  "script_block blk \<Longrightarrow> strip_scripts (blk @ post) = strip_scripts post"
proof -
  assume blk: "script_block blk"
  then have m: "script_open (blk @ post) \<and> script_body (drop 7 (blk @ post)) = Some post"
    by (subst script_match_iff) blast
  then obtain c cs where s: "blk @ post = c # cs"
    by (cases "blk @ post") (auto simp: script_open_def)
  with m show ?thesis by (simp del: drop_Suc_Cons)
qed

lemma strip_scripts_leftmost:
  "script_block blk \<Longrightarrow> (\<forall>i < length pre. \<not> starts_block (drop i (pre @ blk @ post)))
     \<Longrightarrow> strip_scripts (pre @ blk @ post) = pre @ strip_scripts post"
proof (induction pre)
  case Nil
  then show ?case by (simp add: strip_scripts_match)
next
  case (Cons c pre)
  from Cons.prems(2) have "\<not> starts_block (c # pre @ blk @ post)" by force
  then have "strip_scripts (c # pre @ blk @ post) = c # strip_scripts (pre @ blk @ post)"
    by (rule strip_scripts_no_match)
  moreover have "\<forall>i < length pre. \<not> starts_block (drop i (pre @ blk @ post))"
  proof (intro allI impI)
    fix i assume "i < length pre"
    then have "Suc i < length (c # pre)" by simp
    with Cons.prems(2) have "\<not> starts_block (drop (Suc i) ((c # pre) @ blk @ post))" by blast
    then show "\<not> starts_block (drop i (pre @ blk @ post))" by simp
  qed
  ultimately show ?case using Cons.IH [OF Cons.prems(1)] by simp
qed

lemma strip_scripts_none:
  "(\<forall>i < length s. \<not> starts_block (drop i s)) \<Longrightarrow> strip_scripts s = s"
proof (induction s)
  case Nil
  show ?case by simp
next
  case (Cons c cs)
  from Cons.prems have "\<not> starts_block (c # cs)" by force
  then have "strip_scripts (c # cs) = c # strip_scripts cs" by (rule strip_scripts_no_match)
  moreover have "\<forall>i < length cs. \<not> starts_block (drop i cs)"
  proof (intro allI impI)
    fix i assume "i < length cs"
    then have "Suc i < length (c # cs)" by simp
    with Cons.prems have "\<not> starts_block (drop (Suc i) (c # cs))" by blast
    then show "\<not> starts_block (drop i cs)" by simp
  qed
  ultimately show ?case using Cons.IH by simp
qed

lemma strip_tags_leftmost:
  "CHR ''<'' \<notin> set pre \<Longrightarrow> CHR ''>'' \<notin> set body
     \<Longrightarrow> strip_tags (pre @ CHR ''<'' # body @ CHR ''>'' # post) = pre @ strip_tags post"
proof (induction pre)
  case Nil
  from Nil.prems(2) have "\<forall>x \<in> set body. x \<noteq> CHR ''>''" by blast
  then have "dropWhile (\<lambda>x. x \<noteq> CHR ''>'') (body @ CHR ''>'' # post) = CHR ''>'' # post"
    by (simp add: dropWhile_append3)
  then show ?case by simp
next
  case (Cons c pre)
  then show ?case by auto
qed

lemma strip_tags_none: "\<not> has_tag s \<Longrightarrow> strip_tags s = s"
  by (induction s) auto

lemma starts_block_hd: "starts_block s \<Longrightarrow> \<exists>s'. s = CHR ''<'' # s'"
proof -
  assume "starts_block s"
  then obtain start r where "s = start @ r" "spells ''<script'' start"
    unfolding starts_block_def script_block_def by auto
  with spells_hd [of "CHR ''<''" "''script''" start] show ?thesis by auto
qed

lemma plain_no_block:
  assumes "CHR ''<'' \<notin> set pre"
  shows "\<forall>i < length pre. \<not> starts_block (drop i (pre @ t))"
proof (intro allI impI notI)
  fix i assume i: "i < length pre" and sb: "starts_block (drop i (pre @ t))"
  from i have "drop i (pre @ t) = pre ! i # drop (Suc i) pre @ t"
    by (simp add: Cons_nth_drop_Suc)
  with starts_block_hd [OF sb] have "pre ! i = CHR ''<''" by simp
  with i assms show False by (metis nth_mem)
qed

lemma strip_tags_plain_prefix:
  "CHR ''<'' \<notin> set pre \<Longrightarrow> strip_tags (pre @ t) = pre @ strip_tags t"
  by (induction pre) auto

lemma sanitize_block:
  assumes "script_block blk" "CHR ''<'' \<notin> set pre"
  shows "sanitize (pre @ blk @ post) = pre @ sanitize post"
  using strip_scripts_leftmost [OF assms(1) plain_no_block [OF assms(2)], of post]
  by (simp add: sanitize_def strip_tags_plain_prefix [OF assms(2)])

lemma plain_first_close: "CHR ''<'' \<notin> set body \<Longrightarrow> first_close body cl"
  unfolding first_close_def
proof (intro allI impI notI)
  fix us vs
  assume plain: "CHR ''<'' \<notin> set body" and d: "body = us @ vs \<and> vs \<noteq> []"
    and sp: "spells ''</script>'' (take 9 (vs @ cl))"
  from spells_hd [OF sp] obtain w where "take 9 (vs @ cl) = CHR ''<'' # w" by auto
  with d have "hd vs = CHR ''<''" by (cases vs) auto
  with d have "CHR ''<'' \<in> set body" by (cases vs) auto
  with plain show False by simp
qed

lemma script_blockI:
  "spells ''<script'' start \<Longrightarrow> spells ''</script>'' cl
     \<Longrightarrow> (case body of [] \<Rightarrow> True | d # _ \<Rightarrow> d \<notin> word_chars)
     \<Longrightarrow> first_close body cl \<Longrightarrow> script_block (start @ body @ cl)"
  unfolding script_block_def by blast

text \<open>
  C10. Whatever is typed into a Text Input node, \<^verbatim>\<open>handleChange\<close> either leaves the
  store as it is (the sanitised text is longer than a non-zero \<^verbatim>\<open>max_length\<close>) or
  commits, through \<^verbatim>\<open>updateNodeData\<close>, the sanitised text as the node's \<^verbatim>\<open>value\<close>. The
  sanitised text is the typed text after the script blocks and then the tags have been
  deleted. Deleting the script blocks: the leftmost script block of a text goes, with
  everything between its opening and its first closing tag, whatever the case of the
  two tags, and the text behind it is treated the same way; a text in which no script
  block starts is left as it is. Deleting the tags: the leftmost \<^verbatim>\<open><\<close> with a \<^verbatim>\<open>>\<close>
  behind it goes, with everything up to the first such \<^verbatim>\<open>>\<close>, and the text behind it is
  treated the same way; a text without a tag is left as it is. So a script block
  behind text free of \<^verbatim>\<open><\<close> disappears from the sanitised text with all it holds. The
  sanitised text arises from the typed text by deleting characters only, it holds no
  match of \<^verbatim>\<open><[^>]*>\<close>, and it is the typed text itself when that has no \<^verbatim>\<open><\<close>. For
  some inputs it differs from what was typed.
\<close>

theorem handleChange_commits_sanitized:
  "(snd (handleChange i maxLength typed (err, st)) = st
      \<or> snd (handleChange i maxLength typed (err, st))
          = updateNodeData i [''value'' \<mapsto> JStr (sanitize typed)] st)
   \<and> (snd (handleChange i maxLength typed (err, st))
          \<noteq> updateNodeData i [''value'' \<mapsto> JStr (sanitize typed)] st
        \<longrightarrow> (\<exists>m. maxLength = Some m \<and> m \<noteq> 0 \<and> m < int (length (sanitize typed))))
   \<and> sanitize typed = strip_tags (strip_scripts typed)
   \<and> (script_block blk \<and> (\<forall>k < length pre. \<not> starts_block (drop k (pre @ blk @ post)))
        \<longrightarrow> strip_scripts (pre @ blk @ post) = pre @ strip_scripts post)
   \<and> ((\<forall>k < length typed. \<not> starts_block (drop k typed)) \<longrightarrow> strip_scripts typed = typed)
   \<and> (CHR ''<'' \<notin> set pre \<and> CHR ''>'' \<notin> set body
        \<longrightarrow> strip_tags (pre @ CHR ''<'' # body @ CHR ''>'' # post) = pre @ strip_tags post)
   \<and> (\<not> has_tag typed \<longrightarrow> strip_tags typed = typed)
   \<and> (script_block blk \<and> CHR ''<'' \<notin> set pre
        \<longrightarrow> sanitize (pre @ blk @ post) = pre @ sanitize post)
   \<and> subseq (sanitize typed) typed
   \<and> \<not> has_tag (sanitize typed)
   \<and> (CHR ''<'' \<notin> set typed \<longrightarrow> sanitize typed = typed)
   \<and> (\<exists>raw. sanitize raw \<noteq> raw)"
proof (intro conjI)
  show "snd (handleChange i maxLength typed (err, st)) = st
      \<or> snd (handleChange i maxLength typed (err, st))
          = updateNodeData i [''value'' \<mapsto> JStr (sanitize typed)] st"
    by (simp add: handleChange_def Let_def split: option.splits)
  show "snd (handleChange i maxLength typed (err, st))
          \<noteq> updateNodeData i [''value'' \<mapsto> JStr (sanitize typed)] st
        \<longrightarrow> (\<exists>m. maxLength = Some m \<and> m \<noteq> 0 \<and> m < int (length (sanitize typed)))"
    by (auto simp: handleChange_def Let_def split: option.splits if_splits)
  show "sanitize typed = strip_tags (strip_scripts typed)"
    by (simp add: sanitize_def)
  show "script_block blk \<and> (\<forall>k < length pre. \<not> starts_block (drop k (pre @ blk @ post)))
        \<longrightarrow> strip_scripts (pre @ blk @ post) = pre @ strip_scripts post"
    using strip_scripts_leftmost by blast
  show "(\<forall>k < length typed. \<not> starts_block (drop k typed)) \<longrightarrow> strip_scripts typed = typed"
    using strip_scripts_none by blast
  show "CHR ''<'' \<notin> set pre \<and> CHR ''>'' \<notin> set body
        \<longrightarrow> strip_tags (pre @ CHR ''<'' # body @ CHR ''>'' # post) = pre @ strip_tags post"
    using strip_tags_leftmost by blast
  show "\<not> has_tag typed \<longrightarrow> strip_tags typed = typed"
    using strip_tags_none by blast
  show "script_block blk \<and> CHR ''<'' \<notin> set pre
        \<longrightarrow> sanitize (pre @ blk @ post) = pre @ sanitize post"
    using sanitize_block by blast
  show "subseq (sanitize typed) typed"
    unfolding sanitize_def
    by (rule subseq_order.trans [OF subseq_strip_tags subseq_strip_scripts])
  show "\<not> has_tag (sanitize typed)"
    by (simp add: sanitize_def no_tag_strip_tags)
  show "CHR ''<'' \<notin> set typed \<longrightarrow> sanitize typed = typed"
    by (simp add: sanitize_def strip_scripts_plain strip_tags_plain)
  have "sanitize ''<b>'' \<noteq> ''<b>''" by code_simp
  then show "\<exists>raw. sanitize raw \<noteq> raw" ..
qed

theorem handleChange_commits_sanitized_witness:
  "script_block ''<script>alert(\"XSS\")</script>''
   \<and> sanitize ''<script>alert(\"XSS\")</script>Hello'' = ''Hello''
   \<and> script_block ''<SCRIPT type=x>if (a<b) go()</Script>''
   \<and> CHR ''<'' \<notin> set ''Hi ''
   \<and> sanitize ''Hi <SCRIPT type=x>if (a<b) go()</Script>there'' = ''Hi there''
   \<and> strip_scripts ''Hi <SCRIPT type=x>if (a<b) go()</Script><i>there''
       = ''Hi '' @ strip_scripts ''<i>there''
   \<and> \<not> (\<exists>k < length ''<i>there''. starts_block (drop k ''<i>there''))
   \<and> strip_scripts ''<i>there'' = ''<i>there''
   \<and> CHR ''>'' \<notin> set ''i''
   \<and> strip_tags ''Hi <i>there'' = ''Hi '' @ strip_tags ''there''
   \<and> \<not> has_tag ''a > b <''
   \<and> strip_tags ''a > b <'' = ''a > b <''
   \<and> \<not> has_tag (sanitize ''<script>alert(\"XSS\")</script>Hello'')
   \<and> snd (handleChange ''n1'' None ''<script>alert(\"XSS\")</script>Hello''
            (None, \<lparr>nodes = [mk_node ''n1''], edges = []\<rparr>))
       = updateNodeData ''n1'' [''value'' \<mapsto> JStr ''Hello''] \<lparr>nodes = [mk_node ''n1''], edges = []\<rparr>
   \<and> snd (handleChange ''n1'' (Some 3) ''<i>Hello''
            (None, \<lparr>nodes = [mk_node ''n1''], edges = []\<rparr>))
       = \<lparr>nodes = [mk_node ''n1''], edges = []\<rparr>"
proof -
  let ?typed = "''<script>alert(\"XSS\")</script>Hello''"
  let ?st = "\<lparr>nodes = [mk_node ''n1''], edges = []\<rparr>"
  let ?close = "''</script>''"
  note law = handleChange_commits_sanitized
  \<comment> \<open>the two script blocks\<close>
  have lower: "script_block (''<script'' @ ''>alert(\"XSS\")'' @ ''</script>'')"
  proof (rule script_blockI)
    show "spells ''<script'' ''<script''" by (simp add: spells_def ci_eq_def)
    show "spells ''</script>'' ''</script>''" by (simp add: spells_def ci_eq_def)
    show "case ''>alert(\"XSS\")'' of [] \<Rightarrow> True | d # _ \<Rightarrow> d \<notin> word_chars"
      by (simp add: word_chars_def)
    show "first_close ''>alert(\"XSS\")'' ''</script>''"
      by (rule plain_first_close) simp
  qed
  then have blk1: "script_block ''<script>alert(\"XSS\")</script>''" by simp
  have fc: "first_close '' type=x>if (a<b) go()'' ''</Script>''"
    unfolding first_close_def
  proof (intro allI impI)
    fix us vs :: string
    assume d: "'' type=x>if (a<b) go()'' = us @ vs \<and> vs \<noteq> []"
    show "\<not> spells ''</script>'' (take 9 (vs @ ''</Script>''))"
    proof
      assume sp: "spells ''</script>'' (take 9 (vs @ ''</Script>''))"
      from spells_hd [OF sp] obtain w where "take 9 (vs @ ''</Script>'') = CHR ''<'' # w" by auto
      with d obtain vs' where vs: "vs = CHR ''<'' # vs'" by (cases vs) auto
      with d have "vs = ''<b) go()''"
        by (auto simp: append_eq_Cons_conv Cons_eq_append_conv)
      with sp show False by (simp add: spells_def ci_eq_def)
    qed
  qed
  have "script_block (''<SCRIPT'' @ '' type=x>if (a<b) go()'' @ ''</Script>'')"
  proof (rule script_blockI)
    show "spells ''<script'' ''<SCRIPT''" by (simp add: spells_def ci_eq_def)
    show "spells ''</script>'' ''</Script>''" by (simp add: spells_def ci_eq_def)
    show "case '' type=x>if (a<b) go()'' of [] \<Rightarrow> True | d # _ \<Rightarrow> d \<notin> word_chars"
      by (simp add: word_chars_def)
    show "first_close '' type=x>if (a<b) go()'' ''</Script>''" by (rule fc)
  qed
  then have blk2: "script_block ''<SCRIPT type=x>if (a<b) go()</Script>''" by simp
  have plain: "CHR ''<'' \<notin> set ''Hi ''" by simp
  \<comment> \<open>the block law of the theorem, twice\<close>
  from law [of _ _ "''Hello''" _ _ "''<script>alert(\"XSS\")</script>''" "[]" "''Hello''"] blk1
  have "sanitize ([] @ ''<script>alert(\"XSS\")</script>'' @ ''Hello'') = [] @ sanitize ''Hello''"
    by simp
  moreover from law [of _ _ "''Hello''"] have "sanitize ''Hello'' = ''Hello''" by simp
  ultimately have s1: "sanitize ?typed = ''Hello''" by simp
  from law [of _ _ "''there''" _ _ "''<SCRIPT type=x>if (a<b) go()</Script>''" "''Hi ''" "''there''"]
       blk2 plain
  have "sanitize (''Hi '' @ ''<SCRIPT type=x>if (a<b) go()</Script>'' @ ''there'')
          = ''Hi '' @ sanitize ''there''"
    by blast
  moreover from law [of _ _ "''there''"] have "sanitize ''there'' = ''there''" by simp
  ultimately have s2: "sanitize ''Hi <SCRIPT type=x>if (a<b) go()</Script>there'' = ''Hi there''"
    by simp
  \<comment> \<open>the leftmost-match law of the first replacement\<close>
  have early: "\<forall>k < length ''Hi ''.
      \<not> starts_block (drop k (''Hi '' @ ''<SCRIPT type=x>if (a<b) go()</Script>'' @ ''<i>there''))"
    by (rule plain_no_block [OF plain])
  from law [of _ _ _ _ _ "''<SCRIPT type=x>if (a<b) go()</Script>''" "''Hi ''" "''<i>there''"]
       blk2 early
  have "strip_scripts (''Hi '' @ ''<SCRIPT type=x>if (a<b) go()</Script>'' @ ''<i>there'')
          = ''Hi '' @ strip_scripts ''<i>there''"
    by blast
  then have s3: "strip_scripts ''Hi <SCRIPT type=x>if (a<b) go()</Script><i>there''
                   = ''Hi '' @ strip_scripts ''<i>there''"
    by simp
  have none: "\<forall>k < length ''<i>there''. \<not> starts_block (drop k ''<i>there'')"
  proof (intro allI impI notI)
    fix k assume k: "k < length ''<i>there''" and sb: "starts_block (drop k ''<i>there'')"
    from starts_block_hd [OF sb] obtain r where r: "drop k ''<i>there'' = CHR ''<'' # r" by auto
    have "k = 0"
    proof (rule ccontr)
      assume "k \<noteq> 0"
      then obtain j where "k = Suc j" by (cases k) auto
      with k r have "CHR ''<'' \<in> set (drop j ''i>there'')"
        by (metis drop_Suc_Cons list.set_intros(1))
      then have "CHR ''<'' \<in> set ''i>there''" by (rule in_set_dropD)
      then show False by simp
    qed
    with sb have "starts_block ''<i>there''" by simp
    then obtain blk rest start body cl where
      "''<i>there'' = (start @ body @ cl) @ rest" "spells ''<script'' start"
      unfolding starts_block_def script_block_def by blast
    then have "spells ''<script'' (take 7 ''<i>there'')"
      using spells_length [of "''<script''" start] by auto
    then show False by (simp add: spells_def ci_eq_def)
  qed
  from law [of _ _ "''<i>there''"] none
  have s4: "strip_scripts ''<i>there'' = ''<i>there''" by blast
  \<comment> \<open>the laws of the second replacement\<close>
  have inner: "CHR ''>'' \<notin> set ''i''" by simp
  from law [of _ _ _ _ _ _ "''Hi ''" "''there''" "''i''"] plain inner
  have "strip_tags (''Hi '' @ CHR ''<'' # ''i'' @ CHR ''>'' # ''there'') = ''Hi '' @ strip_tags ''there''"
    by blast
  then have s5: "strip_tags ''Hi <i>there'' = ''Hi '' @ strip_tags ''there''" by simp
  have untagged: "\<not> has_tag ''a > b <''" by simp
  from law [of _ _ "''a > b <''"] untagged
  have s6: "strip_tags ''a > b <'' = ''a > b <''" by blast
  \<comment> \<open>what is committed\<close>
  note a = law [of "''n1''" None ?typed None ?st]
  from a have s7: "\<not> has_tag (sanitize ?typed)" by blast
  from a have "snd (handleChange ''n1'' None ?typed (None, ?st))
                  = updateNodeData ''n1'' [''value'' \<mapsto> JStr (sanitize ?typed)] ?st"
    by blast
  with s1 have s8: "snd (handleChange ''n1'' None ?typed (None, ?st))
                  = updateNodeData ''n1'' [''value'' \<mapsto> JStr ''Hello''] ?st"
    by simp
  have "sanitize ''<i>Hello'' = ''Hello''" by code_simp
  then have s9: "snd (handleChange ''n1'' (Some 3) ''<i>Hello'' (None, ?st)) = ?st"
    by (simp add: handleChange_def)
  from none have none': "\<not> (\<exists>k < length ''<i>there''. starts_block (drop k ''<i>there''))"
    by blast
  from blk1 s1 blk2 plain s2 s3 none' s4 inner s5 untagged s6 s7 s8 s9
  show ?thesis by (intro conjI)
qed

section \<open>The separator of a Text Join node\<close>

text \<open>
  C7. When the node's config supplies no string under \<^verbatim>\<open>separator\<close> (no config, no such
  property, or a value that is not a string), the current separator is a single space;
  when \<^verbatim>\<open>config.separator\<close> is a string, it is that string. The separator field shows
  the current separator when the node is mounted.
\<close>

theorem currentSeparator_default:
  "((\<forall>s. config_prop d ''separator'' \<noteq> JStr s) \<longrightarrow> currentSeparator d = '' '')
   \<and> (config_prop d ''separator'' = JStr sep \<longrightarrow> currentSeparator d = sep)
   \<and> localSeparator_initial d = currentSeparator d"
  by (auto simp: currentSeparator_def localSeparator_initial_def split: jsval.splits)

theorem currentSeparator_default_witness:
  "config_prop Map.empty ''separator'' = JUndefined
   \<and> currentSeparator Map.empty = '' ''
   \<and> config_prop [''config'' \<mapsto> JObj [(''separator'', JNum 5)]] ''separator'' = JNum 5
   \<and> currentSeparator [''config'' \<mapsto> JObj [(''separator'', JNum 5)]] = '' ''
   \<and> config_prop [''config'' \<mapsto> JObj [(''separator'', JStr '', '')]] ''separator'' = JStr '', ''
   \<and> currentSeparator [''config'' \<mapsto> JObj [(''separator'', JStr '', '')]] = '', ''
   \<and> localSeparator_initial [''config'' \<mapsto> JObj [(''separator'', JStr '', '')]] = '', ''"
proof -
  let ?num = "[''config'' \<mapsto> JObj [(''separator'', JNum 5)]]"
  let ?str = "[''config'' \<mapsto> JObj [(''separator'', JStr '', '')]]"
  have none: "config_prop Map.empty ''separator'' = JUndefined"
    by (simp add: config_prop_def)
  have num: "config_prop ?num ''separator'' = JNum 5"
    by (simp add: config_prop_def)
  have str: "config_prop ?str ''separator'' = JStr '', ''"
    by (simp add: config_prop_def)
  from currentSeparator_default [of Map.empty] none
  have "currentSeparator Map.empty = '' ''" by simp
  moreover from currentSeparator_default [of ?num] num
  have "currentSeparator ?num = '' ''" by simp
  moreover from currentSeparator_default [of ?str "'', ''"] str
  have "currentSeparator ?str = '', ''" "localSeparator_initial ?str = '', ''" by simp_all
  ultimately show ?thesis using none num str by (intro conjI)
qed

section \<open>Division by zero in the Math Operation block\<close>

text \<open>
  C6. A Math Operation block configured with divide and run with \<open>b = 0\<close> yields a
  result that carries a BlockExecutionError and no value, whatever \<open>a\<close> is.
\<close>

theorem math_divide_by_zero:
  "math_operation_run Divide a 0 = \<lparr>result_value = None, result_error = Some BlockExecutionError\<rparr>"
  by (simp add: math_operation_run_def)

theorem math_divide_by_zero_witness:
  "result_error (math_operation_run Divide 10 0) = Some BlockExecutionError
   \<and> result_value (math_operation_run Divide 10 0) = None"
  using math_divide_by_zero [of 10] by simp

section \<open>What a validation call writes\<close>

lemma extends_refl: "extends h h"
  by (simp add: extends_def)

lemma extends_trans: "extends h1 h2 \<Longrightarrow> extends h2 h3 \<Longrightarrow> extends h1 h3"
  by (auto simp: extends_def)

lemma extends_alloc: "alloc a h = (r, h') \<Longrightarrow> extends h h'"
  by (auto simp: alloc_def extends_def)

lemma extends_arrays:
  assumes "extends h h'" "r < next_ref h"
  shows "node_array h' r = node_array h r" "edge_array h' r = edge_array h r"
    "id_array h' r = id_array h r" "r < next_ref h'"
  using assms by (auto simp: extends_def node_array_def edge_array_def id_array_def)

lemma getOutgoers_h_extends: "getOutgoers_h n nr er h = (r, h') \<Longrightarrow> extends h h'"
  by (auto simp: getOutgoers_h_def alloc_def extends_def Let_def split: prod.splits)

lemma getOutgoers_h_result:
  assumes "getOutgoers_h n nr er h = (r, h')" "nr < next_ref h" "er < next_ref h"
  shows "node_array h' r = getOutgoers n (node_array h nr) (edge_array h er)"
  using assms
  by (auto simp: getOutgoers_h_def getOutgoers_def alloc_def Let_def
                 node_array_def edge_array_def id_array_def split: prod.splits)

lemma some_h_extends:
  "(\<And>x h1 b h2. x \<in> set xs \<Longrightarrow> f x h1 = Some (b, h2) \<Longrightarrow> extends h1 h2)
     \<Longrightarrow> some_h f xs h = Some (b, h') \<Longrightarrow> extends h h'"
proof (induction xs arbitrary: h)
  case Nil
  then show ?case by (simp add: extends_refl)
next
  case (Cons x xs)
  from Cons.prems(2) obtain c h1 where fx: "f x h = Some (c, h1)"
    by (cases "f x h") auto
  from Cons.prems(1) [OF _ fx] have step: "extends h h1" by simp
  show ?case
  proof (cases c)
    case True
    with Cons.prems(2) fx step show ?thesis by simp
  next
    case False
    with Cons.prems(2) fx have "some_h f xs h1 = Some (b, h')" by simp
    then have "extends h1 h'"
      by (rule Cons.IH [rotated]) (rule Cons.prems(1), simp_all)
    with step show ?thesis by (rule extends_trans)
  qed
qed

lemma checkForCycles_h_extends:
  "checkForCycles_h depth t s nr er h = Some (b, h') \<Longrightarrow> extends h h'"
proof (induction depth arbitrary: t h b h')
  case 0
  then show ?case by simp
next
  case (Suc depth)
  obtain outs h1 where go: "getOutgoers_h t nr er h = (outs, h1)"
    by (cases "getOutgoers_h t nr er h")
  from getOutgoers_h_extends [OF go] have first: "extends h h1" .
  show ?case
  proof (cases "list_ex (\<lambda>out. node_id out = node_id s) (node_array h1 outs)")
    case True
    with Suc.prems go first show ?thesis by simp
  next
    case False
    with Suc.prems go have
      "some_h (\<lambda>out. checkForCycles_h depth out s nr er) (node_array h1 outs) h1 = Some (b, h')"
      by simp
    then have "extends h1 h'"
      by (rule some_h_extends [rotated]) (rule Suc.IH)
    with first show ?thesis by (rule extends_trans)
  qed
qed

lemma isValidConnection_h_extends:
  "isValidConnection_h depth c nr er h = Some (b, h') \<Longrightarrow> extends h h'"
  by (auto simp: isValidConnection_h_def extends_refl
           split: if_splits option.splits prod.splits bool.splits
           dest: checkForCycles_h_extends)

lemma some_h_result:
  assumes frame: "\<And>x h1 b h2. x \<in> set xs \<Longrightarrow> f x h1 = Some (b, h2) \<Longrightarrow> extends h1 h2"
    and res: "\<And>x h1. x \<in> set xs \<Longrightarrow> extends h0 h1 \<Longrightarrow> map_option fst (f x h1) = g x"
  shows "extends h0 h \<Longrightarrow> map_option fst (some_h f xs h) = some_opt g xs"
  using frame res
proof (induction xs arbitrary: h)
  case Nil
  then show ?case by simp
next
  case (Cons x xs)
  from Cons.prems(3) [OF _ Cons.prems(1)] have head: "map_option fst (f x h) = g x" by simp
  show ?case
  proof (cases "f x h")
    case None
    with head show ?thesis by simp
  next
    case (Some r)
    obtain c h1 where r: "r = (c, h1)" by (cases r)
    with Some head have gx: "g x = Some c" by simp
    from Cons.prems(2) [OF _ Some [unfolded r]] have "extends h h1" by simp
    with Cons.prems(1) have ext: "extends h0 h1" by (rule extends_trans)
    have rest: "map_option fst (some_h f xs h1) = some_opt g xs"
    proof (rule Cons.IH [OF ext])
      fix y h2 b h3 assume "y \<in> set xs" "f y h2 = Some (b, h3)"
      then show "extends h2 h3" using Cons.prems(2) by (meson list.set_intros(2))
    next
      fix y h2 assume "y \<in> set xs" "extends h0 h2"
      then show "map_option fst (f y h2) = g y" using Cons.prems(3) by (meson list.set_intros(2))
    qed
    from Some r gx rest show ?thesis by (cases c) simp_all
  qed
qed

lemma checkForCycles_h_result:
  "nr < next_ref h \<Longrightarrow> er < next_ref h \<Longrightarrow>
     map_option fst (checkForCycles_h depth t s nr er h)
       = checkForCycles depth t s (node_array h nr) (edge_array h er)"
proof (induction depth arbitrary: t h)
  case 0
  show ?case by simp
next
  case (Suc depth)
  obtain outs h1 where go: "getOutgoers_h t nr er h = (outs, h1)"
    by (cases "getOutgoers_h t nr er h")
  from getOutgoers_h_result [OF go Suc.prems]
  have outs: "node_array h1 outs = getOutgoers t (node_array h nr) (edge_array h er)" .
  from getOutgoers_h_extends [OF go] have first: "extends h h1" .
  have "map_option fst (some_h (\<lambda>out. checkForCycles_h depth out s nr er) (node_array h1 outs) h1)
          = some_opt (\<lambda>out. checkForCycles depth out s (node_array h nr) (edge_array h er))
                     (node_array h1 outs)"
  proof (rule some_h_result [where ?h0.0 = h1])
    fix x h2 b h3
    assume "checkForCycles_h depth x s nr er h2 = Some (b, h3)"
    then show "extends h2 h3" by (rule checkForCycles_h_extends)
  next
    fix x h2 assume "extends h1 h2"
    with first have ext: "extends h h2" by (rule extends_trans)
    from extends_arrays [OF ext] Suc.prems
    have same: "node_array h2 nr = node_array h nr" "edge_array h2 er = edge_array h er"
      "nr < next_ref h2" "er < next_ref h2"
      by simp_all
    from Suc.IH [OF same(3,4)] same(1,2)
    show "map_option fst (checkForCycles_h depth x s nr er h2)
            = checkForCycles depth x s (node_array h nr) (edge_array h er)"
      by simp
  next
    show "extends h1 h1" by (rule extends_refl)
  qed
  with go outs show ?case by (simp add: Let_def)
qed

lemma isValidConnection_h_result:
  assumes "nr < next_ref h" "er < next_ref h"
  shows "map_option fst (isValidConnection_h depth c nr er h)
           = isValidConnection depth c (node_array h nr) (edge_array h er)"
proof -
  have "map_option fst (case checkForCycles_h depth tn sn nr er h of
                          None \<Rightarrow> None
                        | Some (True, h') \<Rightarrow> Some (False, h')
                        | Some (False, h') \<Rightarrow> Some (True, h'))
          = (case checkForCycles depth tn sn (node_array h nr) (edge_array h er) of
               None \<Rightarrow> None | Some True \<Rightarrow> Some False | Some False \<Rightarrow> Some True)" for tn sn
    using checkForCycles_h_result [OF assms, of depth tn sn, symmetric]
    by (cases "checkForCycles_h depth tn sn nr er h") (auto split: bool.splits)
  then show ?thesis
    by (simp add: isValidConnection_h_def isValidConnection_def split: option.splits)
qed

text \<open>
  C8. Neither \<^verbatim>\<open>checkForCycles\<close> nor \<^verbatim>\<open>isValidConnection\<close> writes to an array that exists
  when it is called: whenever a call returns, every reference in use before the call,
  the node array and the edge array among them, holds what it held before, and the
  only change to the heap is the arrays \<^verbatim>\<open>getOutgoers\<close> allocates. The value returned is
  the one computed from the contents of the two arrays at the time of the call.
\<close>

theorem validator_writes_nothing:
  "(checkForCycles_h depth t s nodesRef edgesRef h = Some (b, h') \<longrightarrow> extends h h')
   \<and> (isValidConnection_h depth c nodesRef edgesRef h = Some (b, h') \<longrightarrow> extends h h')
   \<and> (nodesRef < next_ref h \<and> edgesRef < next_ref h \<longrightarrow>
        map_option fst (checkForCycles_h depth t s nodesRef edgesRef h)
          = checkForCycles depth t s (node_array h nodesRef) (edge_array h edgesRef)
      \<and> map_option fst (isValidConnection_h depth c nodesRef edgesRef h)
          = isValidConnection depth c (node_array h nodesRef) (edge_array h edgesRef))"
  by (auto intro: checkForCycles_h_extends isValidConnection_h_extends
           simp: checkForCycles_h_result isValidConnection_h_result)

theorem validator_writes_nothing_witness:
  "(0::nat) < next_ref example_heap \<and> (1::nat) < next_ref example_heap
   \<and> node_array example_heap 0 = chain_nodes \<and> edge_array example_heap 1 = chain_edges
   \<and> (\<exists>h'. isValidConnection_h 3 (mk_connection ''c'' ''a'') 0 1 example_heap = Some (False, h')
            \<and> node_array h' 0 = chain_nodes \<and> edge_array h' 1 = chain_edges
            \<and> next_ref h' = 8)
   \<and> isValidConnection 3 (mk_connection ''c'' ''a'') chain_nodes chain_edges = Some False"
proof -
  let ?c = "mk_connection ''c'' ''a''"
  have refs: "(0::nat) < next_ref example_heap" "(1::nat) < next_ref example_heap"
    by (simp_all add: example_heap_def)
  have arrays: "node_array example_heap 0 = chain_nodes" "edge_array example_heap 1 = chain_edges"
    by (simp_all add: example_heap_def node_array_def edge_array_def)
  have run: "map_option fst (isValidConnection_h 3 ?c 0 1 example_heap) = Some False"
    by code_simp
  have top: "map_option (next_ref \<circ> snd) (isValidConnection_h 3 ?c 0 1 example_heap) = Some 8"
    by code_simp
  from run top obtain h' where
    h': "isValidConnection_h 3 ?c 0 1 example_heap = Some (False, h')" and n: "next_ref h' = 8"
    by (cases "isValidConnection_h 3 ?c 0 1 example_heap") auto
  note inst = validator_writes_nothing [of 3 "mk_node ''a''" "mk_node ''c''" 0 1 example_heap
                                           False h' ?c]
  from inst h' have ext: "extends example_heap h'" by blast
  from extends_arrays(1) [OF ext refs(1)] extends_arrays(2) [OF ext refs(2)] arrays
  have kept: "node_array h' 0 = chain_nodes" "edge_array h' 1 = chain_edges"
    by simp_all
  from inst refs run arrays
  have pure: "isValidConnection 3 ?c chain_nodes chain_edges = Some False"
    by simp
  from h' kept n have "\<exists>h'. isValidConnection_h 3 ?c 0 1 example_heap = Some (False, h')
            \<and> node_array h' 0 = chain_nodes \<and> edge_array h' 1 = chain_edges
            \<and> next_ref h' = 8"
    by blast
  with refs arrays pure show ?thesis by (intro conjI)
qed

end
